theory Spec2Isabelle
  imports Main "HOL-Library.Word" "HOL-Library.Multiset"
begin

section \<open>Machine types\<close>

text \<open>
  \<open>vertex_id_t\<close> is an unsigned 32-bit integer (it is compared with \<open>UINT_MAX\<close> and
  printed with \<open>%u\<close>); \<open>size_t\<close> is an unsigned 64-bit integer. Comparison on words
  is the unsigned one, arithmetic wraps.
\<close>

type_synonym vertex_id_t = "32 word"
type_synonym size_t = "64 word"

section \<open>The running maximum (\<open>global_max\<close>, topK\_scan\_graph.cpp)\<close>

text \<open>
  The field \<open>value\<close> of the class is called \<open>max_value\<close> here. \<open>update\<close> tests the
  candidate against the value once without the lock and once more under it.
  \<open>global_max_update\<close> is a whole call run without interference: both tests read the same
  value. \<open>run_updates\<close> runs one call after the other and collects the return values;
  \<open>installed\<close> lists the values the object has held, the constructor's first.
\<close>


record global_max =
  max_value :: size_t

definition global_max_init :: "size_t \<Rightarrow> global_max" where
  "global_max_init init = \<lparr>max_value = init\<rparr>"

definition global_max_get :: "global_max \<Rightarrow> size_t" where
  "global_max_get g = max_value g"

definition global_max_update :: "size_t \<Rightarrow> global_max \<Rightarrow> bool \<times> global_max" where
  "global_max_update new_v g =
     (if new_v \<le> max_value g then (False, g)
      else if new_v > max_value g then (True, g\<lparr>max_value := new_v\<rparr>)
      else (False, g))"

fun run_updates :: "global_max \<Rightarrow> size_t list \<Rightarrow> global_max \<times> bool list" where
  "run_updates g [] = (g, [])"
| "run_updates g (c # cs) =
     (let (r, g') = global_max_update c g;
          (g'', rs) = run_updates g' cs
      in (g'', r # rs))"

definition installed :: "global_max \<Rightarrow> size_t list \<Rightarrow> size_t list" where
  "installed g cs = max_value g # map fst (filter snd (zip cs (snd (run_updates g cs))))"


text \<open>
  Several threads may call \<open>update\<close> at once. A call then takes two atomic steps: the
  test without the lock, and the critical section under the spin lock (the second test
  and the store). A thread is its candidate and its position in \<open>update\<close>; a schedule is
  the sequence of the indices of the threads that take the next step.
\<close>

datatype update_pc = Unlocked_check | Locked_check | Finished bool

record update_thread =
  new_v :: size_t
  at :: update_pc

definition update_step :: "global_max \<Rightarrow> update_thread \<Rightarrow> global_max \<times> update_thread" where
  "update_step g t =
     (case at t of
        Unlocked_check \<Rightarrow>
          if new_v t \<le> max_value g then (g, t\<lparr>at := Finished False\<rparr>)
          else (g, t\<lparr>at := Locked_check\<rparr>)
      | Locked_check \<Rightarrow>
          if new_v t > max_value g then (g\<lparr>max_value := new_v t\<rparr>, t\<lparr>at := Finished True\<rparr>)
          else (g, t\<lparr>at := Finished False\<rparr>)
      | Finished ret \<Rightarrow> (g, t))"

definition thread_step ::
  "global_max \<times> update_thread list \<Rightarrow> nat \<Rightarrow> global_max \<times> update_thread list" where
  "thread_step st i =
     (case st of (g, ts) \<Rightarrow>
        if i < length ts
        then (case update_step g (ts ! i) of (g', t') \<Rightarrow> (g', ts[i := t']))
        else (g, ts))"

definition interleave ::
  "nat list \<Rightarrow> global_max \<times> update_thread list \<Rightarrow> global_max \<times> update_thread list" where
  "interleave sch st = foldl thread_step st sch"

definition spawn :: "size_t list \<Rightarrow> update_thread list" where
  "spawn cs = map (\<lambda>c. \<lparr>new_v = c, at = Unlocked_check\<rparr>) cs"

definition finished :: "update_thread \<Rightarrow> bool" where
  "finished t = (case at t of Finished ret \<Rightarrow> True | _ \<Rightarrow> False)"

definition interleave_inv :: "size_t \<Rightarrow> size_t list \<Rightarrow> global_max \<times> update_thread list \<Rightarrow> bool" where
  "interleave_inv v0 cs st =
     (case st of (g, ts) \<Rightarrow>
        max_value g \<in> set (v0 # cs) \<and> v0 \<le> max_value g \<and> map new_v ts = cs \<and>
        list_all (\<lambda>t. if finished t then new_v t \<le> max_value g else True) ts)"


subsection \<open>Properties of the running maximum\<close>

lemma update_value: "max_value (snd (global_max_update c g)) = max (max_value g) c"
  by (auto simp: global_max_update_def max_def)

lemma update_ret: "fst (global_max_update c g) = (max_value g < c)"
  by (auto simp: global_max_update_def)

lemma run_updates_value:
  "max_value (fst (run_updates g cs)) = Max (set (max_value g # cs))"
proof (induction cs arbitrary: g)
  case Nil
  then show ?case by simp
next
  case (Cons c cs)
  have "max_value (fst (run_updates g (c # cs))) =
        max_value (fst (run_updates (snd (global_max_update c g)) cs))"
    by (simp add: split_beta Let_def)
  also have "\<dots> = Max (set (max (max_value g) c # cs))"
    by (simp add: Cons.IH update_value)
  also have "\<dots> = Max (set (max_value g # c # cs))"
    by (cases cs) (simp_all add: max.assoc)
  finally show ?case .
qed

lemma run_updates_length: "length (snd (run_updates g cs)) = length cs"
  by (induction cs arbitrary: g) (simp_all add: split_beta Let_def)

lemma run_updates_nth:
  "i < length cs \<Longrightarrow>
   snd (run_updates g cs) ! i = (max_value (fst (run_updates g (take i cs))) < cs ! i)"
proof (induction cs arbitrary: g i)
  case Nil
  then show ?case by simp
next
  case (Cons c cs)
  show ?case
  proof (cases i)
    case 0
    then show ?thesis by (simp add: split_beta Let_def update_ret)
  next
    case (Suc j)
    with Cons.prems have "j < length cs" by simp
    from Cons.IH [OF this, of "snd (global_max_update c g)"] Suc
    show ?thesis by (simp add: split_beta Let_def)
  qed
qed

lemma installed_set_bounds:
  "set (installed g cs) \<subseteq> set (max_value g # cs)"
  by (auto simp: installed_def dest: set_zip_leftD)

lemma installed_contains_final:
  "max_value (fst (run_updates g cs)) \<in> set (installed g cs)"
proof (induction cs arbitrary: g)
  case Nil
  then show ?case by (simp add: installed_def)
next
  case (Cons c cs)
  let ?g' = "snd (global_max_update c g)"
  have fin: "max_value (fst (run_updates g (c # cs))) = max_value (fst (run_updates ?g' cs))"
    by (simp add: split_beta Let_def)
  have sub: "set (installed ?g' cs) \<subseteq> set (installed g (c # cs))"
    by (auto simp: installed_def split_beta Let_def update_ret global_max_update_def)
  from Cons.IH [of ?g'] fin sub show ?case by auto
qed

lemma greater_installed_iff:
  "(\<forall>w\<in>set (installed g cs). w < c) = (max_value (fst (run_updates g cs)) < c)"
proof
  assume "\<forall>w\<in>set (installed g cs). w < c"
  with installed_contains_final [of g cs] show "max_value (fst (run_updates g cs)) < c"
    by blast
next
  assume lt: "max_value (fst (run_updates g cs)) < c"
  show "\<forall>w\<in>set (installed g cs). w < c"
  proof
    fix w assume "w \<in> set (installed g cs)"
    with installed_set_bounds have "w \<in> set (max_value g # cs)" by blast
    then have "w \<le> Max (set (max_value g # cs))" by (intro Max_ge) auto
    with lt show "w < c" by (simp only: run_updates_value) 
  qed
qed

lemma update_step_new_v: "new_v (snd (update_step g t)) = new_v t"
  by (simp add: update_step_def split: update_pc.splits)

lemma update_step_mono: "max_value g \<le> max_value (fst (update_step g t))"
  by (auto simp: update_step_def split: update_pc.splits)

lemma update_step_value: "max_value (fst (update_step g t)) \<in> {max_value g, new_v t}"
  by (simp add: update_step_def split: update_pc.splits)

lemma update_step_finished:
  "finished (snd (update_step g t)) \<Longrightarrow> finished t \<or> new_v t \<le> max_value (fst (update_step g t))"
  by (auto simp: update_step_def finished_def split: update_pc.splits if_splits)

lemma update_step_stays_finished:
  "finished t \<Longrightarrow> update_step g t = (g, t)"
  by (auto simp: update_step_def finished_def split: update_pc.splits)

lemma thread_step_inv:
  assumes "interleave_inv v0 cs st"
  shows "interleave_inv v0 cs (thread_step st i)"
proof -
  obtain g ts where st: "st = (g, ts)" by (cases st)
  from assms st have val: "max_value g \<in> set (v0 # cs)" and lo: "v0 \<le> max_value g"
    and cands: "map new_v ts = cs"
    and fin: "list_all (\<lambda>t. if finished t then new_v t \<le> max_value g else True) ts"
    by (simp_all add: interleave_inv_def)
  show ?thesis
  proof (cases "i < length ts")
    case False
    with assms st show ?thesis by (simp add: thread_step_def)
  next
    case True
    let ?g' = "fst (update_step g (ts ! i))" and ?t' = "snd (update_step g (ts ! i))"
    have res: "thread_step st i = (?g', ts[i := ?t'])"
      using True st by (simp add: thread_step_def split_beta)
    have mono: "max_value g \<le> max_value ?g'" by (rule update_step_mono)
    from True cands have "new_v (ts ! i) \<in> set cs" by (metis length_map nth_map nth_mem)
    with val update_step_value [of g "ts ! i"] have val': "max_value ?g' \<in> set (v0 # cs)"
      by auto
    from True cands have "new_v (ts ! i) = cs ! i" by (metis nth_map)
    then have cands': "map new_v (ts[i := ?t']) = cs"
      using cands by (simp add: map_update update_step_new_v)
    have fin': "list_all (\<lambda>t. if finished t then new_v t \<le> max_value ?g' else True) (ts[i := ?t'])"
      unfolding list_all_length
    proof (intro allI impI)
      fix j assume j: "j < length (ts[i := ?t'])"
      show "if finished (ts[i := ?t'] ! j) then new_v (ts[i := ?t'] ! j) \<le> max_value ?g' else True"
      proof (cases "j = i")
        case True
        with j have eq: "ts[i := ?t'] ! j = ?t'" by simp
        show ?thesis
        proof (cases "finished (ts ! i)")
          case True
          with fin \<open>i < length ts\<close> have "new_v (ts ! i) \<le> max_value g"
            by (auto simp: list_all_length)
          with mono have "new_v (ts ! i) \<le> max_value ?g'" by (rule order_trans [rotated])
          then show ?thesis by (simp add: eq update_step_new_v)
        next
          case False
          with update_step_finished [of g "ts ! i"] show ?thesis
            by (auto simp: eq update_step_new_v)
        qed
      next
        case False
        with j have eq: "ts[i := ?t'] ! j = ts ! j" by simp
        from fin j have "if finished (ts ! j) then new_v (ts ! j) \<le> max_value g else True"
          by (simp add: list_all_length)
        with mono show ?thesis by (auto simp: eq)
      qed
    qed
    from val' lo mono cands' fin' show ?thesis
      by (simp add: res interleave_inv_def)
  qed
qed

lemma interleave_inv_run:
  "interleave_inv v0 cs st \<Longrightarrow> interleave_inv v0 cs (interleave sch st)"
  unfolding interleave_def
  by (induction sch arbitrary: st) (simp_all add: thread_step_inv)

lemma interleave_inv_spawn: "interleave_inv (max_value g) cs (g, spawn cs)"
  by (simp add: interleave_inv_def spawn_def comp_def list_all_iff finished_def)

lemma interleave_final:
  assumes "list_all finished (snd (interleave sch (g, spawn cs)))"
  shows "max_value (fst (interleave sch (g, spawn cs))) = Max (set (max_value g # cs))"
proof -
  obtain g' ts where r: "interleave sch (g, spawn cs) = (g', ts)"
    by (cases "interleave sch (g, spawn cs)")
  from interleave_inv_run [OF interleave_inv_spawn [of g cs], of sch] r
  have val: "max_value g' \<in> set (max_value g # cs)" and lo: "max_value g \<le> max_value g'"
    and cands: "map new_v ts = cs"
    and fin: "list_all (\<lambda>t. if finished t then new_v t \<le> max_value g' else True) ts"
    by (simp_all add: interleave_inv_def)
  from assms r have allfin: "list_all finished ts" by simp
  have "c \<le> max_value g'" if "c \<in> set cs" for c
  proof -
    from that cands obtain t where "t \<in> set ts" "new_v t = c" by auto
    with fin allfin show ?thesis by (auto simp: list_all_iff)
  qed
  with lo have "\<And>w. w \<in> set (max_value g # cs) \<Longrightarrow> w \<le> max_value g'" by auto
  with val have "Max (set (max_value g # cs)) = max_value g'"
    by (intro Max_eqI) auto
  with r show ?thesis by simp
qed

lemma interleave_mono: "max_value g \<le> max_value (fst (interleave sch (g, spawn cs)))"
  using interleave_inv_run [OF interleave_inv_spawn [of g cs], of sch]
  by (simp add: interleave_inv_def split_beta)


text \<open>
  C2. \<open>global_max::update\<close> installs the candidate exactly when it is strictly
  greater than the current value and returns whether it did. Over any sequence of
  updates the final value is the maximum of the initial value and all candidates, and the
  \<open>i\<close>-th update returns true exactly when its candidate is strictly greater than
  every value installed before it (the constructor's value included). When the calls
  of several threads interleave, the value never drops below the initial one, and once
  every call has returned it is the same maximum.
\<close>

theorem global_max_update_spec:
  "fst (global_max_update c g) = (max_value g < c) \<and>
   max_value (snd (global_max_update c g)) = (if max_value g < c then c else max_value g) \<and>
   max_value (fst (run_updates g cs)) = Max (set (max_value g # cs)) \<and>
   length (snd (run_updates g cs)) = length cs \<and>
   (\<forall>i<length cs. snd (run_updates g cs) ! i =
       (\<forall>w\<in>set (installed g (take i cs)). w < cs ! i)) \<and>
   max_value g \<le> max_value (fst (interleave sch (g, spawn cs))) \<and>
   (list_all finished (snd (interleave sch (g, spawn cs))) \<longrightarrow>
      max_value (fst (interleave sch (g, spawn cs))) = Max (set (max_value g # cs)))"
proof -
  have seq: "fst (global_max_update c g) = (max_value g < c) \<and>
   max_value (snd (global_max_update c g)) = (if max_value g < c then c else max_value g) \<and>
   max_value (fst (run_updates g cs)) = Max (set (max_value g # cs)) \<and>
   length (snd (run_updates g cs)) = length cs \<and>
   (\<forall>i<length cs. snd (run_updates g cs) ! i =
       (\<forall>w\<in>set (installed g (take i cs)). w < cs ! i))"
    by (auto simp: update_ret update_value run_updates_value run_updates_length
        run_updates_nth greater_installed_iff max_def simp del: set_simps)
  have "max_value g \<le> max_value (fst (interleave sch (g, spawn cs)))"
    by (rule interleave_mono)
  moreover have "list_all finished (snd (interleave sch (g, spawn cs))) \<longrightarrow>
      max_value (fst (interleave sch (g, spawn cs))) = Max (set (max_value g # cs))"
    using interleave_final [of sch g cs] by blast
  ultimately show ?thesis using seq by blast
qed

theorem global_max_update_spec_witness:
  "snd (run_updates (global_max_init 0) [3, 1, 7, 7]) = [True, False, True, False] \<and>
   max_value (fst (run_updates (global_max_init 0) [3, 1, 7, 7])) = 7 \<and>
   interleave [0, 1, 1, 0] (global_max_init 0, spawn [3, 7]) =
     (\<lparr>max_value = 7\<rparr>,
      [\<lparr>new_v = 3, at = Finished False\<rparr>, \<lparr>new_v = 7, at = Finished True\<rparr>]) \<and>
   list_all finished (snd (interleave [0, 1, 1, 0] (global_max_init 0, spawn [3, 7]))) \<and>
   max_value (fst (interleave [0, 1, 1, 0] (global_max_init 0, spawn [3, 7]))) =
     Max (set (max_value (global_max_init 0) # [3, 7]))"
proof -
  have len: "length [3, 1, 7, 7 :: size_t] = 4" by simp
  have all: "\<forall>i<4. snd (run_updates (global_max_init 0) [3, 1, 7, 7]) ! i =
       (\<forall>w\<in>set (installed (global_max_init 0) (take i [3, 1, 7, 7])). w < [3, 1, 7, 7] ! i)"
    using global_max_update_spec [of 3 "global_max_init 0" "[3, 1, 7, 7]"] len by simp
  have v: "max_value (fst (run_updates (global_max_init 0) [3, 1, 7, 7])) = 7"
    using global_max_update_spec [of 3 "global_max_init 0" "[3, 1, 7, 7]"]
    by (simp add: global_max_init_def)
  have r: "snd (run_updates (global_max_init 0) [3, 1, 7, 7]) = [True, False, True, False]"
    by (simp add: global_max_init_def global_max_update_def)
  have ev: "interleave [0, 1, 1, 0] (global_max_init 0, spawn [3, 7]) =
     (\<lparr>max_value = 7\<rparr>,
      [\<lparr>new_v = 3, at = Finished False\<rparr>, \<lparr>new_v = 7, at = Finished True\<rparr>])"
    by (simp add: interleave_def thread_step_def update_step_def spawn_def global_max_init_def)
  then have fin: "list_all finished (snd (interleave [0, 1, 1, 0] (global_max_init 0, spawn [3, 7])))"
    by (simp add: finished_def)
  with global_max_update_spec [where g = "global_max_init 0" and cs = "[3, 7]" and sch = "[0, 1, 1, 0]"]
  have "max_value (fst (interleave [0, 1, 1, 0] (global_max_init 0, spawn [3, 7]))) =
     Max (set (max_value (global_max_init 0) # [3, 7]))"
    by blast
  with v r ev fin show ?thesis by blast
qed

section \<open>Page vertices: the edge lists read from the graph file\<close>

text \<open>
  Modelled from the spec: the class \<open>page_vertex\<close> belongs to the engine's headers.
  Following the graph input interface (section 6 of the specification), a page vertex
  gives the vertex id and the in- and out-neighbour sequences. The number of edges of a
  kind is the length of its sequence, and \<open>BOTH_EDGES\<close> stands for the in-edges followed
  by the out-edges.
\<close>

datatype edge_type = IN_EDGE | OUT_EDGE | BOTH_EDGES

record page_vertex =
  pv_id :: vertex_id_t
  in_edges :: "vertex_id_t list"
  out_edges :: "vertex_id_t list"

fun get_neigh_seq :: "page_vertex \<Rightarrow> edge_type \<Rightarrow> vertex_id_t list" where
  "get_neigh_seq pv IN_EDGE = in_edges pv"
| "get_neigh_seq pv OUT_EDGE = out_edges pv"
| "get_neigh_seq pv BOTH_EDGES = in_edges pv @ out_edges pv"

definition get_num_edges :: "page_vertex \<Rightarrow> edge_type \<Rightarrow> nat" where
  "get_num_edges pv t = length (get_neigh_seq pv t)"

section \<open>Weakly connected components (wcc.cpp)\<close>

text \<open>
  \<open>component_message\<close> stores the label in an \<open>int\<close> field: the constructor converts
  the unsigned id to its two's complement value, \<open>get_id\<close> converts back.
  \<open>wcc_vertex::run\<close> takes the global \<open>wcc_stage\<close> as a parameter and returns the
  requests it issues. The assertion in \<open>run_on_num_edges\<close> is the \<open>None\<close> result.
\<close>

datatype wcc_stage_t = FIND_COMPONENTS | REMOVE_EMPTY

record component_message =
  msg_id :: int

definition component_message_new :: "vertex_id_t \<Rightarrow> component_message" where
  "component_message_new i = \<lparr>msg_id = sint i\<rparr>"

definition get_id :: "component_message \<Rightarrow> vertex_id_t" where
  "get_id m = word_of_int (msg_id m)"

record wcc_vertex =
  vid :: vertex_id_t
  updated :: bool
  empty :: bool
  component_id :: vertex_id_t

definition wcc_vertex_init :: "vertex_id_t \<Rightarrow> wcc_vertex" where
  "wcc_vertex_init i = \<lparr>vid = i, updated = True, empty = False, component_id = i\<rparr>"

datatype request = Request_vertices vertex_id_t | Request_num_edges vertex_id_t

definition wcc_run :: "wcc_stage_t \<Rightarrow> wcc_vertex \<Rightarrow> wcc_vertex \<times> request list" where
  "wcc_run stage v =
     (let i = vid v in
      if stage = FIND_COMPONENTS then
        (if updated v then (v\<lparr>updated := False\<rparr>, [Request_vertices i]) else (v, []))
      else (v, [Request_num_edges i]))"

definition wcc_run_on_vertex ::
  "wcc_vertex \<Rightarrow> page_vertex \<Rightarrow> (vertex_id_t \<times> component_message) list" where
  "wcc_run_on_vertex v vertex =
     (let num_dests = get_num_edges vertex BOTH_EDGES;
          it = take num_dests (get_neigh_seq vertex BOTH_EDGES);
          msg = component_message_new (component_id v)
      in map (\<lambda>dest. (dest, msg)) it)"

definition run_on_message :: "wcc_vertex \<Rightarrow> component_message \<Rightarrow> wcc_vertex" where
  "run_on_message v msg =
     (if get_id msg < component_id v
      then v\<lparr>updated := True, component_id := get_id msg\<rparr>
      else v)"

definition run_on_num_edges :: "wcc_vertex \<Rightarrow> vertex_id_t \<Rightarrow> nat \<Rightarrow> wcc_vertex option" where
  "run_on_num_edges v i num_edges =
     (if vid v = i then Some (v\<lparr>empty := (num_edges = 0)\<rparr>) else None)"


subsection \<open>Label adoption\<close>

lemma get_id_new: "get_id (component_message_new i) = i"
  by (simp add: get_id_def component_message_new_def)

lemma run_on_message_component:
  "component_id (run_on_message v m) = min (component_id v) (get_id m)"
  by (auto simp: run_on_message_def min_def)

lemma run_on_message_updated:
  "updated (run_on_message v m) = (updated v \<or> get_id m < component_id v)"
  by (simp add: run_on_message_def)

lemma deliveries_component_le:
  "component_id (foldl run_on_message v ms) \<le> component_id v"
proof (induction ms arbitrary: v)
  case Nil
  show ?case by simp
next
  case (Cons m ms)
  have "component_id (foldl run_on_message (run_on_message v m) ms)
          \<le> component_id (run_on_message v m)"
    by (rule Cons.IH)
  also have "\<dots> \<le> component_id v"
    by (simp add: run_on_message_component)
  finally show ?case by simp
qed

lemma deliveries_updated:
  "updated (foldl run_on_message v ms) =
     (updated v \<or> component_id (foldl run_on_message v ms) \<noteq> component_id v)"
proof (induction ms arbitrary: v)
  case Nil
  show ?case by simp
next
  case (Cons m ms)
  let ?w = "run_on_message v m"
  have le: "component_id (foldl run_on_message ?w ms) \<le> component_id ?w"
    by (rule deliveries_component_le)
  show ?case
  proof (cases "get_id m < component_id v")
    case True
    then have "component_id ?w < component_id v" and "updated ?w"
      by (simp_all add: run_on_message_def)
    with le Cons.IH [of ?w] show ?thesis by auto
  next
    case False
    then have "?w = v" by (simp add: run_on_message_def)
    with Cons.IH [of v] show ?thesis by simp
  qed
qed

text \<open>
  C4. \<open>run_on_message\<close> adopts the label of the message exactly when it is strictly
  smaller than the current one, so the label becomes the minimum of the two, and it raises
  the \<open>updated\<close> flag in that case and leaves the vertex untouched otherwise. The label
  never grows over any sequence of deliveries. After a run in stage \<open>FIND_COMPONENTS\<close>
  and any deliveries, the next run requests the vertex's own edges exactly when the label
  differs from the one it had at the end of the previous run.
\<close>

theorem wcc_run_on_message_spec:
  "run_on_message v m =
     (if get_id m < component_id v then v\<lparr>updated := True, component_id := get_id m\<rparr> else v) \<and>
   component_id (run_on_message v m) = min (component_id v) (get_id m) \<and>
   updated (run_on_message v m) = (updated v \<or> get_id m < component_id v) \<and>
   get_id (component_message_new l) = l \<and>
   component_id (foldl run_on_message v ms) \<le> component_id v \<and>
   (let v1 = fst (wcc_run FIND_COMPONENTS v0);
        v2 = foldl run_on_message v1 ms
    in snd (wcc_run FIND_COMPONENTS v2) =
         (if component_id v2 = component_id v1 then [] else [Request_vertices (vid v2)]))"
proof -
  have "updated (foldl run_on_message (fst (wcc_run FIND_COMPONENTS v0)) ms) =
        (component_id (foldl run_on_message (fst (wcc_run FIND_COMPONENTS v0)) ms)
           \<noteq> component_id (fst (wcc_run FIND_COMPONENTS v0)))"
    by (subst deliveries_updated) (simp add: wcc_run_def)
  then show ?thesis
    by (simp add: run_on_message_component run_on_message_updated get_id_new
        deliveries_component_le Let_def)
       (simp add: wcc_run_def run_on_message_def)
qed

theorem wcc_run_on_message_spec_witness:
  "run_on_message (wcc_vertex_init 5) (component_message_new 2) =
     \<lparr>vid = 5, updated = True, empty = False, component_id = 2\<rparr> \<and>
   run_on_message (wcc_vertex_init 5) (component_message_new 7) = wcc_vertex_init 5"
  using wcc_run_on_message_spec [of "wcc_vertex_init 5" "component_message_new 2"]
    wcc_run_on_message_spec [of "wcc_vertex_init 5" "component_message_new 7"]
  by (simp add: wcc_vertex_init_def get_id_def component_message_new_def)

section \<open>The engine's supersteps\<close>

text \<open>
  Modelled from the spec: the graph engine (\<open>graph_engine\<close>, \<open>vertex_program\<close>,
  \<open>start_all\<close>, \<open>wait4complete\<close>, \<open>query_on_all\<close>) is the library that wcc.cpp is
  written against. Following the system overview and sections 4.2 to 4.4 of the
  specification, one superstep dispatches \<open>run\<close> to every active vertex, resolves the I/O requests they
  issued (a request for a vertex re-enters the requester with that vertex's page, a request
  for an edge count re-enters \<open>run_on_num_edges\<close>), then delivers the messages sent in the
  superstep; a vertex that receives a message is active in the next superstep (the message
  is constructed with the activation flag set), and the run is quiescent when no vertex is
  active. An assertion failure in a callback aborts the run (\<open>None\<close>).
\<close>

record graph_file =
  num_vertices :: nat
  page_of :: "vertex_id_t \<Rightarrow> page_vertex"

type_synonym graph_index = "vertex_id_t \<Rightarrow> wcc_vertex"

record graph_engine =
  index :: graph_index
  active :: "vertex_id_t list"

fun dispatch_run ::
  "wcc_stage_t \<Rightarrow> vertex_id_t list \<Rightarrow> graph_index \<Rightarrow> graph_index \<times> (vertex_id_t \<times> request) list" where
  "dispatch_run stage [] idx = (idx, [])"
| "dispatch_run stage (a # as) idx =
     (let (v', reqs) = wcc_run stage (idx a);
          (idx', rest) = dispatch_run stage as (idx(a := v'))
      in (idx', map (Pair a) reqs @ rest))"

fun resolve_io ::
  "graph_file \<Rightarrow> (vertex_id_t \<times> request) list \<Rightarrow> graph_index \<Rightarrow>
     (graph_index \<times> (vertex_id_t \<times> component_message) list) option" where
  "resolve_io g [] idx = Some (idx, [])"
| "resolve_io g ((a, Request_vertices rid) # rs) idx =
     (case resolve_io g rs idx of
        None \<Rightarrow> None
      | Some (idx', msgs) \<Rightarrow> Some (idx', wcc_run_on_vertex (idx a) (page_of g rid) @ msgs))"
| "resolve_io g ((a, Request_num_edges rid) # rs) idx =
     (case run_on_num_edges (idx a) rid (get_num_edges (page_of g rid) BOTH_EDGES) of
        None \<Rightarrow> None
      | Some v' \<Rightarrow> resolve_io g rs (idx(a := v')))"

fun deliver :: "(vertex_id_t \<times> component_message) list \<Rightarrow> graph_index \<Rightarrow> graph_index" where
  "deliver [] idx = idx"
| "deliver ((dest, msg) # ms) idx = deliver ms (idx(dest := run_on_message (idx dest) msg))"

text \<open>
  Modelled from the spec: one superstep of the engine, as section 4.4 orders its phases.
  The vertices a message reaches form the next active set (section 4.3).
\<close>

definition superstep :: "graph_file \<Rightarrow> wcc_stage_t \<Rightarrow> graph_engine \<Rightarrow> graph_engine option" where
  "superstep g stage s =
     (let (idx1, reqs) = dispatch_run stage (active s) (index s) in
      case resolve_io g reqs idx1 of
        None \<Rightarrow> None
      | Some (idx2, msgs) \<Rightarrow>
          Some \<lparr>index = deliver msgs idx2, active = remdups (map fst msgs)\<rparr>)"

definition phi :: "wcc_vertex \<Rightarrow> nat" where
  "phi v = 2 * unat (component_id v) + (if updated v then 1 else 0)"

definition potential :: "graph_index \<Rightarrow> nat" where
  "potential idx = (\<Sum>i\<in>UNIV. phi (idx i))"

lemma potential_upd:
  "potential (idx(a := v)) + phi (idx a) = potential idx + phi v"
proof -
  have fin: "finite (UNIV - {a})" by simp
  have "potential (idx(a := v)) = phi v + (\<Sum>i\<in>UNIV - {a}. phi ((idx(a := v)) i))"
    unfolding potential_def by (subst sum.remove [of UNIV a]) simp_all
  moreover have "(\<Sum>i\<in>UNIV - {a}. phi ((idx(a := v)) i)) = (\<Sum>i\<in>UNIV - {a}. phi (idx i))"
    by (rule sum.cong) simp_all
  moreover have "potential idx = phi (idx a) + (\<Sum>i\<in>UNIV - {a}. phi (idx i))"
    unfolding potential_def by (subst sum.remove [of UNIV a]) simp_all
  ultimately show ?thesis by simp
qed

lemma potential_upd_le: "phi v \<le> phi (idx a) \<Longrightarrow> potential (idx(a := v)) \<le> potential idx"
  using potential_upd [of idx a v] by linarith

lemma potential_upd_less: "phi v < phi (idx a) \<Longrightarrow> potential (idx(a := v)) < potential idx"
  using potential_upd [of idx a v] by linarith

lemma phi_run_on_message: "phi (run_on_message v m) \<le> phi v"
proof (cases "get_id m < component_id v")
  case True
  then have "unat (get_id m) < unat (component_id v)" by (simp add: word_less_nat_alt)
  with True show ?thesis by (simp add: phi_def run_on_message_def)
next
  case False
  then show ?thesis by (simp add: run_on_message_def)
qed

lemma phi_wcc_run: "phi (fst (wcc_run stage v)) \<le> phi v"
  by (simp add: wcc_run_def phi_def Let_def)

lemma phi_wcc_run_request:
  "Request_vertices r \<in> set (snd (wcc_run stage v)) \<Longrightarrow> phi (fst (wcc_run stage v)) < phi v"
  by (auto simp: wcc_run_def phi_def Let_def split: if_splits)

lemma phi_run_on_num_edges: "run_on_num_edges v i n = Some v' \<Longrightarrow> phi v' = phi v"
  by (auto simp: run_on_num_edges_def phi_def split: if_splits)

lemma potential_deliver: "potential (deliver ms idx) \<le> potential idx"
proof (induction ms arbitrary: idx)
  case Nil
  show ?case by simp
next
  case (Cons dm ms)
  obtain dest msg where dm: "dm = (dest, msg)" by (cases dm)
  let ?idx1 = "idx(dest := run_on_message (idx dest) msg)"
  have "potential (deliver ms ?idx1) \<le> potential ?idx1"
    by (rule Cons.IH)
  also have "\<dots> \<le> potential idx"
    by (rule potential_upd_le) (rule phi_run_on_message)
  finally show ?case by (simp add: dm)
qed

lemma potential_dispatch_le: "potential (fst (dispatch_run stage as idx)) \<le> potential idx"
proof (induction as arbitrary: idx)
  case Nil
  show ?case by simp
next
  case (Cons a as)
  let ?idx1 = "idx(a := fst (wcc_run stage (idx a)))"
  have "potential (fst (dispatch_run stage as ?idx1)) \<le> potential ?idx1"
    by (rule Cons.IH)
  also have "\<dots> \<le> potential idx"
    by (rule potential_upd_le) (rule phi_wcc_run)
  finally show ?case by (simp add: split_beta Let_def)
qed

lemma potential_dispatch_less:
  "(a, Request_vertices r) \<in> set (snd (dispatch_run stage as idx)) \<Longrightarrow>
   potential (fst (dispatch_run stage as idx)) < potential idx"
proof (induction as arbitrary: idx)
  case Nil
  then show ?case by simp
next
  case (Cons b bs)
  let ?idx1 = "idx(b := fst (wcc_run stage (idx b)))"
  have step: "potential (fst (dispatch_run stage (b # bs) idx))
                = potential (fst (dispatch_run stage bs ?idx1))"
    by (simp add: split_beta Let_def)
  from Cons.prems have
    "Request_vertices r \<in> set (snd (wcc_run stage (idx b)))
      \<or> (a, Request_vertices r) \<in> set (snd (dispatch_run stage bs ?idx1))"
    by (auto simp: split_beta Let_def)
  then show ?case
  proof
    assume "Request_vertices r \<in> set (snd (wcc_run stage (idx b)))"
    then have "potential ?idx1 < potential idx"
      by (intro potential_upd_less phi_wcc_run_request)
    with potential_dispatch_le [of stage bs ?idx1] step show ?thesis by linarith
  next
    assume "(a, Request_vertices r) \<in> set (snd (dispatch_run stage bs ?idx1))"
    then have "potential (fst (dispatch_run stage bs ?idx1)) < potential ?idx1"
      by (rule Cons.IH)
    moreover have "potential ?idx1 \<le> potential idx"
      by (rule potential_upd_le) (rule phi_wcc_run)
    ultimately show ?thesis using step by linarith
  qed
qed

lemma resolve_io_potential:
  "resolve_io g rs idx = Some (idx', msgs) \<Longrightarrow> potential idx' = potential idx"
proof (induction g rs idx arbitrary: idx' msgs rule: resolve_io.induct)
  case (1 g idx)
  then show ?case by simp
next
  case (2 g a rid rs idx)
  then show ?case by (auto split: option.splits)
next
  case (3 g a rid rs idx)
  from "3.prems" obtain v' where
    v': "run_on_num_edges (idx a) rid (get_num_edges (page_of g rid) BOTH_EDGES) = Some v'"
    and rest: "resolve_io g rs (idx(a := v')) = Some (idx', msgs)"
    by (auto split: option.splits)
  from "3.IH" [OF v' rest] have "potential idx' = potential (idx(a := v'))" .
  moreover from potential_upd [of idx a v'] phi_run_on_num_edges [OF v']
  have "potential (idx(a := v')) = potential idx" by simp
  ultimately show ?case by simp
qed

lemma resolve_io_msgs:
  "resolve_io g rs idx = Some (idx', msgs) \<Longrightarrow> msgs \<noteq> [] \<Longrightarrow>
   \<exists>a r. (a, Request_vertices r) \<in> set rs"
proof (induction g rs idx arbitrary: idx' msgs rule: resolve_io.induct)
  case (1 g idx)
  then show ?case by simp
next
  case (2 g a rid rs idx)
  show ?case by auto
next
  case (3 g a rid rs idx)
  from "3.prems" obtain v' where
    v': "run_on_num_edges (idx a) rid (get_num_edges (page_of g rid) BOTH_EDGES) = Some v'"
    and rest: "resolve_io g rs (idx(a := v')) = Some (idx', msgs)"
    by (auto split: option.splits)
  from "3.IH" [OF v' rest "3.prems"(2)] show ?case by auto
qed

lemma superstep_progress:
  assumes "superstep g stage s = Some s'"
  shows "potential (index s') < potential (index s)
         \<or> (potential (index s') = potential (index s) \<and> active s' = [])"
proof -
  obtain idx1 reqs where d: "dispatch_run stage (active s) (index s) = (idx1, reqs)"
    by (cases "dispatch_run stage (active s) (index s)")
  with assms obtain idx2 msgs where r: "resolve_io g reqs idx1 = Some (idx2, msgs)"
    and s': "s' = \<lparr>index = deliver msgs idx2, active = remdups (map fst msgs)\<rparr>"
    by (auto simp: superstep_def split: option.splits)
  have p2: "potential idx2 = potential idx1" using r by (rule resolve_io_potential)
  have p3: "potential (index s') \<le> potential idx2" using s' by (simp add: potential_deliver)
  have p1: "potential idx1 \<le> potential (index s)"
    using potential_dispatch_le [of stage "active s" "index s"] d by simp
  show ?thesis
  proof (cases "msgs = []")
    case True
    with s' p1 p2 p3 show ?thesis by auto
  next
    case False
    with resolve_io_msgs [OF r] obtain a rq where "(a, Request_vertices rq) \<in> set reqs" by blast
    with potential_dispatch_less [of a rq stage "active s" "index s"] d
    have "potential idx1 < potential (index s)" by simp
    with p2 p3 show ?thesis by linarith
  qed
qed

text \<open>
  Modelled from the spec: \<open>wait4complete\<close> runs supersteps until quiescence, that is
  until no vertex is active (section 4.4). The potential of the index
  (twice the labels plus the raised flags) drops in every superstep that sends a message,
  and a superstep that sends none leaves no vertex active.
\<close>

function wait4complete :: "graph_file \<Rightarrow> wcc_stage_t \<Rightarrow> graph_engine \<Rightarrow> graph_engine option" where
  "wait4complete g stage s =
     (if active s = [] then Some s
      else case superstep g stage s of
             None \<Rightarrow> None
           | Some s' \<Rightarrow> wait4complete g stage s')"
  by pat_completeness auto
termination
proof (relation "measures [\<lambda>(g, stage, s). potential (index s), \<lambda>(g, stage, s). length (active s)]")
  show "wf (measures [\<lambda>(g, stage, s). potential (index s), \<lambda>(g, stage, s). length (active s)])"
    by simp
next
  fix g stage s s'
  assume "active s \<noteq> []" and "superstep g stage s = Some s'"
  with superstep_progress [of g stage s s']
  show "((g, stage, s'), (g, stage, s))
          \<in> measures [\<lambda>(g, stage, s). potential (index s), \<lambda>(g, stage, s). length (active s)]"
    by auto
qed

declare wait4complete.simps [simp del]

fun iterate_supersteps ::
  "nat \<Rightarrow> graph_file \<Rightarrow> wcc_stage_t \<Rightarrow> graph_engine \<Rightarrow> graph_engine option" where
  "iterate_supersteps 0 g stage s = Some s"
| "iterate_supersteps (Suc n) g stage s =
     (case superstep g stage s of
        None \<Rightarrow> None
      | Some s' \<Rightarrow> iterate_supersteps n g stage s')"

text \<open>
  Modelled from the spec: the index holds one vertex per id, built by the constructor of
  \<open>wcc_vertex\<close>; \<open>start_all\<close> seeds the active set with every vertex of the graph;
  \<open>query_on_all\<close> visits every vertex with the query (section 6, result extraction) and
  \<open>FG_vector_create\<close> makes the output sequence with one entry per vertex.
  \<open>INVALID_VERTEX_ID\<close> is a constant of the engine's headers and a parameter here.
\<close>

definition graph_engine_create :: "graph_file \<Rightarrow> graph_engine" where
  "graph_engine_create g = \<lparr>index = wcc_vertex_init, active = []\<rparr>"

definition all_vertices :: "graph_file \<Rightarrow> vertex_id_t list" where
  "all_vertices g = map of_nat [0..<num_vertices g]"

definition start_all :: "graph_file \<Rightarrow> graph_engine \<Rightarrow> graph_engine" where
  "start_all g s = s\<lparr>active := all_vertices g\<rparr>"

definition is_empty :: "wcc_vertex \<Rightarrow> bool" where
  "is_empty v = empty v"

definition get_component_id :: "wcc_vertex \<Rightarrow> vertex_id_t" where
  "get_component_id v = component_id v"

definition save_cid_query_run ::
  "vertex_id_t \<Rightarrow> vertex_id_t list \<Rightarrow> wcc_vertex \<Rightarrow> vertex_id_t list" where
  "save_cid_query_run INVALID_VERTEX_ID vec wcc_v =
     (if \<not> is_empty wcc_v
      then vec[unat (vid wcc_v) := get_component_id wcc_v]
      else vec[unat (vid wcc_v) := INVALID_VERTEX_ID])"

definition FG_vector_create :: "graph_file \<Rightarrow> vertex_id_t list" where
  "FG_vector_create g = replicate (num_vertices g) 0"

definition query_on_all ::
  "graph_file \<Rightarrow> vertex_id_t \<Rightarrow> graph_engine \<Rightarrow> vertex_id_t list \<Rightarrow> vertex_id_t list" where
  "query_on_all g INVALID_VERTEX_ID s vec =
     foldl (\<lambda>vec i. save_cid_query_run INVALID_VERTEX_ID vec (index s i)) vec (all_vertices g)"

definition compute_wcc :: "graph_file \<Rightarrow> vertex_id_t \<Rightarrow> vertex_id_t list option" where
  "compute_wcc g INVALID_VERTEX_ID =
     (case wait4complete g FIND_COMPONENTS (start_all g (graph_engine_create g)) of
        None \<Rightarrow> None
      | Some s1 \<Rightarrow>
          (case wait4complete g REMOVE_EMPTY (start_all g s1) of
             None \<Rightarrow> None
           | Some s2 \<Rightarrow> Some (query_on_all g INVALID_VERTEX_ID s2 (FG_vector_create g))))"

text \<open>
  The graph of the scenario: every vertex of a clique has an edge to and from each other
  vertex of the clique, vertex 6 has no edge.
\<close>

definition clique_vertex :: "vertex_id_t \<Rightarrow> vertex_id_t list \<Rightarrow> page_vertex" where
  "clique_vertex i others = \<lparr>pv_id = i, in_edges = others, out_edges = others\<rparr>"

definition two_cliques :: graph_file where
  "two_cliques =
     \<lparr>num_vertices = 7,
      page_of = (\<lambda>i. if i = 0 then clique_vertex 0 [1, 2]
                     else if i = 1 then clique_vertex 1 [0, 2]
                     else if i = 2 then clique_vertex 2 [0, 1]
                     else if i = 3 then clique_vertex 3 [4, 5]
                     else if i = 4 then clique_vertex 4 [3, 5]
                     else if i = 5 then clique_vertex 5 [3, 4]
                     else clique_vertex i [])\<rparr>"


subsection \<open>The vertex id never changes\<close>

lemma vid_wcc_run: "vid (fst (wcc_run stage v)) = vid v"
  by (simp add: wcc_run_def Let_def)

lemma vid_run_on_message: "vid (run_on_message v m) = vid v"
  by (simp add: run_on_message_def)

lemma vid_run_on_num_edges: "run_on_num_edges v i n = Some v' \<Longrightarrow> vid v' = vid v"
  by (auto simp: run_on_num_edges_def split: if_splits)

lemma vid_dispatch_run: "vid (fst (dispatch_run stage as idx) i) = vid (idx i)"
proof (induction as arbitrary: idx)
  case Nil
  show ?case by simp
next
  case (Cons a as)
  have "vid (fst (dispatch_run stage as (idx(a := fst (wcc_run stage (idx a))))) i)
          = vid ((idx(a := fst (wcc_run stage (idx a)))) i)"
    by (rule Cons.IH)
  then show ?case by (simp add: split_beta Let_def vid_wcc_run)
qed

lemma vid_resolve_io:
  "resolve_io g rs idx = Some (idx', msgs) \<Longrightarrow> vid (idx' i) = vid (idx i)"
proof (induction g rs idx arbitrary: idx' msgs rule: resolve_io.induct)
  case (1 g idx)
  then show ?case by simp
next
  case (2 g a rid rs idx)
  then show ?case by (auto split: option.splits)
next
  case (3 g a rid rs idx)
  from "3.prems" obtain v' where
    v': "run_on_num_edges (idx a) rid (get_num_edges (page_of g rid) BOTH_EDGES) = Some v'"
    and rest: "resolve_io g rs (idx(a := v')) = Some (idx', msgs)"
    by (auto split: option.splits)
  from "3.IH" [OF v' rest] vid_run_on_num_edges [OF v'] show ?case by simp
qed

lemma vid_deliver: "vid (deliver ms idx i) = vid (idx i)"
proof (induction ms arbitrary: idx)
  case Nil
  show ?case by simp
next
  case (Cons dm ms)
  obtain dest msg where dm: "dm = (dest, msg)" by (cases dm)
  have "vid (deliver ms (idx(dest := run_on_message (idx dest) msg)) i)
          = vid ((idx(dest := run_on_message (idx dest) msg)) i)"
    by (rule Cons.IH)
  then show ?case by (simp add: dm vid_run_on_message)
qed

lemma vid_superstep:
  assumes "superstep g stage s = Some s'"
  shows "vid (index s' i) = vid (index s i)"
proof -
  obtain idx1 reqs where d: "dispatch_run stage (active s) (index s) = (idx1, reqs)"
    by (cases "dispatch_run stage (active s) (index s)")
  with assms obtain idx2 msgs where r: "resolve_io g reqs idx1 = Some (idx2, msgs)"
    and s': "s' = \<lparr>index = deliver msgs idx2, active = remdups (map fst msgs)\<rparr>"
    by (auto simp: superstep_def split: option.splits)
  have "vid (index s' i) = vid (idx2 i)" by (simp add: s' vid_deliver)
  also have "\<dots> = vid (idx1 i)" using r by (rule vid_resolve_io)
  also have "\<dots> = vid (index s i)" using vid_dispatch_run [of stage "active s" "index s" i] d by simp
  finally show ?thesis .
qed

lemma vid_wait4complete:
  "wait4complete g stage s = Some s' \<Longrightarrow> vid (index s' i) = vid (index s i)"
proof (induction g stage s rule: wait4complete.induct)
  case (1 g stage s)
  show ?case
  proof (cases "active s = []")
    case True
    with "1.prems" show ?thesis by (simp add: wait4complete.simps)
  next
    case False
    with "1.prems" obtain s1 where s1: "superstep g stage s = Some s1"
      and w: "wait4complete g stage s1 = Some s'"
      by (subst (asm) wait4complete.simps) (auto split: option.splits)
    from "1.IH" [OF False s1 w] vid_superstep [OF s1] show ?thesis by simp
  qed
qed

subsection \<open>The assertion of \<open>run_on_num_edges\<close> never fails\<close>

lemma dispatch_run_requests:
  "(a, Request_num_edges rid) \<in> set (snd (dispatch_run stage as idx)) \<Longrightarrow> rid = vid (idx a)"
proof (induction as arbitrary: idx)
  case Nil
  then show ?case by simp
next
  case (Cons b bs)
  let ?idx1 = "idx(b := fst (wcc_run stage (idx b)))"
  from Cons.prems have
    "(a = b \<and> Request_num_edges rid \<in> set (snd (wcc_run stage (idx b))))
      \<or> (a, Request_num_edges rid) \<in> set (snd (dispatch_run stage bs ?idx1))"
    by (auto simp: split_beta Let_def)
  then show ?case
  proof
    assume "a = b \<and> Request_num_edges rid \<in> set (snd (wcc_run stage (idx b)))"
    then show ?thesis by (auto simp: wcc_run_def Let_def split: if_splits)
  next
    assume "(a, Request_num_edges rid) \<in> set (snd (dispatch_run stage bs ?idx1))"
    then have "rid = vid (?idx1 a)" by (rule Cons.IH)
    then show ?thesis by (simp add: vid_wcc_run)
  qed
qed

lemma resolve_io_no_abort:
  "(\<And>a rid. (a, Request_num_edges rid) \<in> set rs \<Longrightarrow> rid = vid (idx a)) \<Longrightarrow>
   resolve_io g rs idx \<noteq> None"
proof (induction g rs idx rule: resolve_io.induct)
  case (1 g idx)
  show ?case by simp
next
  case (2 g a rid rs idx)
  have "resolve_io g rs idx \<noteq> None"
    by (rule "2.IH") (simp add: "2.prems")
  then show ?case by (auto split: option.splits)
next
  case (3 g a rid rs idx)
  have rid: "rid = vid (idx a)" by (rule "3.prems") simp
  let ?v' = "(idx a)\<lparr>empty := (get_num_edges (page_of g rid) BOTH_EDGES = 0)\<rparr>"
  have v': "run_on_num_edges (idx a) rid (get_num_edges (page_of g rid) BOTH_EDGES) = Some ?v'"
    by (simp add: run_on_num_edges_def rid)
  have "resolve_io g rs (idx(a := ?v')) \<noteq> None"
  proof (rule "3.IH" [OF v'])
    fix b r assume "(b, Request_num_edges r) \<in> set rs"
    then have "r = vid (idx b)" by (intro "3.prems") simp
    then show "r = vid ((idx(a := ?v')) b)" by simp
  qed
  with v' show ?case by simp
qed

lemma superstep_no_abort: "superstep g stage s \<noteq> None"
proof -
  obtain idx1 reqs where d: "dispatch_run stage (active s) (index s) = (idx1, reqs)"
    by (cases "dispatch_run stage (active s) (index s)")
  have "resolve_io g reqs idx1 \<noteq> None"
  proof (rule resolve_io_no_abort)
    fix a rid assume "(a, Request_num_edges rid) \<in> set reqs"
    with d have "rid = vid (index s a)"
      using dispatch_run_requests [of a rid stage "active s" "index s"] by simp
    also have "\<dots> = vid (idx1 a)"
      using vid_dispatch_run [of stage "active s" "index s" a] d by simp
    finally show "rid = vid (idx1 a)" .
  qed
  with d show ?thesis by (auto simp: superstep_def split: option.splits)
qed

lemma wait4complete_quiescent:
  "\<exists>s'. wait4complete g stage s = Some s' \<and> active s' = []"
proof (induction g stage s rule: wait4complete.induct)
  case (1 g stage s)
  show ?case
  proof (cases "active s = []")
    case True
    then show ?thesis by (simp add: wait4complete.simps)
  next
    case False
    from superstep_no_abort [of g stage s] obtain s1 where s1: "superstep g stage s = Some s1"
      by auto
    from "1.IH" [OF False s1] obtain s' where "wait4complete g stage s1 = Some s'" "active s' = []"
      by blast
    with False s1 show ?thesis by (subst wait4complete.simps) simp
  qed
qed

lemma wait4complete_iterate:
  "\<exists>n s'. iterate_supersteps n g stage s = Some s' \<and> active s' = [] \<and>
          wait4complete g stage s = Some s' \<and>
          (\<forall>k<n. \<exists>sk. iterate_supersteps k g stage s = Some sk \<and> active sk \<noteq> [])"
proof (induction g stage s rule: wait4complete.induct)
  case (1 g stage s)
  show ?case
  proof (cases "active s = []")
    case True
    then have "iterate_supersteps 0 g stage s = Some s \<and> active s = [] \<and>
          wait4complete g stage s = Some s \<and>
          (\<forall>k<0. \<exists>sk. iterate_supersteps k g stage s = Some sk \<and> active sk \<noteq> [])"
      by (simp add: wait4complete.simps)
    then show ?thesis by blast
  next
    case False
    from superstep_no_abort [of g stage s] obtain s1 where s1: "superstep g stage s = Some s1"
      by auto
    from "1.IH" [OF False s1] obtain n s' where
      it: "iterate_supersteps n g stage s1 = Some s'" and q: "active s' = []"
      and w: "wait4complete g stage s1 = Some s'"
      and before: "\<forall>k<n. \<exists>sk. iterate_supersteps k g stage s1 = Some sk \<and> active sk \<noteq> []"
      by blast
    have "\<forall>k<Suc n. \<exists>sk. iterate_supersteps k g stage s = Some sk \<and> active sk \<noteq> []"
    proof (intro allI impI)
      fix k assume "k < Suc n"
      show "\<exists>sk. iterate_supersteps k g stage s = Some sk \<and> active sk \<noteq> []"
      proof (cases k)
        case 0
        with False show ?thesis by simp
      next
        case (Suc j)
        with \<open>k < Suc n\<close> before obtain sk where
          "iterate_supersteps j g stage s1 = Some sk" "active sk \<noteq> []" by auto
        with Suc s1 show ?thesis by simp
      qed
    qed
    moreover have "iterate_supersteps (Suc n) g stage s = Some s'" using s1 it by simp
    moreover have "wait4complete g stage s = Some s'"
      using False s1 w by (subst wait4complete.simps) simp
    ultimately show ?thesis using q by blast
  qed
qed

definition mark_empty :: "graph_file \<Rightarrow> wcc_vertex \<Rightarrow> wcc_vertex" where
  "mark_empty g v = v\<lparr>empty := (get_num_edges (page_of g (vid v)) BOTH_EDGES = 0)\<rparr>"

lemma dispatch_run_remove_empty:
  "dispatch_run REMOVE_EMPTY as idx = (idx, map (\<lambda>a. (a, Request_num_edges (vid (idx a)))) as)"
proof (induction as)
  case Nil
  show ?case by simp
next
  case (Cons a as)
  have "wcc_run REMOVE_EMPTY (idx a) = (idx a, [Request_num_edges (vid (idx a))])"
    by (simp add: wcc_run_def)
  with Cons show ?case by simp
qed

lemma resolve_io_num_edges:
  "(\<And>a. vid (idx a) = vid (idx0 a)) \<Longrightarrow>
   resolve_io g (map (\<lambda>a. (a, Request_num_edges (vid (idx0 a)))) as) idx =
     Some (\<lambda>b. if b \<in> set as then mark_empty g (idx b) else idx b, [])"
proof (induction as arbitrary: idx)
  case Nil
  show ?case by simp
next
  case (Cons a as)
  let ?v' = "mark_empty g (idx a)"
  have v': "run_on_num_edges (idx a) (vid (idx0 a))
              (get_num_edges (page_of g (vid (idx0 a))) BOTH_EDGES) = Some ?v'"
    by (simp add: run_on_num_edges_def mark_empty_def Cons.prems)
  have "resolve_io g (map (\<lambda>a. (a, Request_num_edges (vid (idx0 a)))) as) (idx(a := ?v')) =
     Some (\<lambda>b. if b \<in> set as then mark_empty g ((idx(a := ?v')) b) else (idx(a := ?v')) b, [])"
    by (rule Cons.IH) (simp add: mark_empty_def Cons.prems)
  moreover have "(\<lambda>b. if b \<in> set as then mark_empty g ((idx(a := ?v')) b) else (idx(a := ?v')) b)
     = (\<lambda>b. if b \<in> set (a # as) then mark_empty g (idx b) else idx b)"
    by (rule ext) (simp add: mark_empty_def)
  ultimately show ?case using v' by simp
qed

lemma superstep_remove_empty:
  "superstep g REMOVE_EMPTY s =
     Some \<lparr>index = (\<lambda>b. if b \<in> set (active s) then mark_empty g (index s b) else index s b),
           active = []\<rparr>"
  by (simp add: superstep_def dispatch_run_remove_empty resolve_io_num_edges)

lemma wait4complete_remove_empty:
  assumes "wait4complete g REMOVE_EMPTY s = Some s'" and "b \<in> set (active s)"
  shows "index s' b = mark_empty g (index s b)"
proof -
  from assms(2) have "active s \<noteq> []" by auto
  with assms(1) have "wait4complete g REMOVE_EMPTY
     \<lparr>index = (\<lambda>b. if b \<in> set (active s) then mark_empty g (index s b) else index s b),
      active = []\<rparr> = Some s'"
    by (subst (asm) wait4complete.simps) (simp add: superstep_remove_empty)
  then have "s' = \<lparr>index = (\<lambda>b. if b \<in> set (active s) then mark_empty g (index s b) else index s b),
      active = []\<rparr>"
    by (subst (asm) wait4complete.simps) simp
  with assms(2) show ?thesis by simp
qed

lemma length_save_cid_query_run: "length (save_cid_query_run none vec v) = length vec"
  by (simp add: save_cid_query_run_def)

definition query_upto ::
  "nat \<Rightarrow> vertex_id_t \<Rightarrow> graph_engine \<Rightarrow> vertex_id_t list \<Rightarrow> vertex_id_t list" where
  "query_upto n none s vec =
     foldl (\<lambda>vec i. save_cid_query_run none vec (index s i)) vec (map of_nat [0..<n])"

lemma query_upto_Suc:
  "query_upto (Suc n) none s vec = save_cid_query_run none (query_upto n none s vec) (index s (of_nat n))"
  by (simp add: query_upto_def)

lemma length_query_upto: "length (query_upto n none s vec) = length vec"
  by (induction n) (simp_all add: query_upto_Suc length_save_cid_query_run, simp add: query_upto_def)

lemma query_upto_nth:
  assumes "\<And>i. i < n \<Longrightarrow> vid (index s (of_nat i)) = of_nat i"
    and "n \<le> 2 ^ 32" and "n \<le> length vec" and "j < n"
  shows "query_upto n none s vec ! j =
     (if empty (index s (of_nat j)) then none else component_id (index s (of_nat j)))"
  using assms
proof (induction n)
  case 0
  then show ?case by simp
next
  case (Suc n)
  have un: "unat (of_nat n :: vertex_id_t) = n"
    using Suc.prems(2) by (simp add: unat_of_nat)
  have vn: "vid (index s (of_nat n)) = of_nat n" by (rule Suc.prems(1)) simp
  have len: "n < length (query_upto n none s vec)"
    using Suc.prems(3) by (simp add: length_query_upto)
  show ?case
  proof (cases "j = n")
    case True
    with len show ?thesis
      by (simp add: query_upto_Suc save_cid_query_run_def vn un is_empty_def get_component_id_def)
  next
    case False
    with Suc.prems(4) have j: "j < n" by simp
    have "query_upto n none s vec ! j =
     (if empty (index s (of_nat j)) then none else component_id (index s (of_nat j)))"
      using Suc.prems j by (intro Suc.IH) simp_all
    with False show ?thesis
      by (simp add: query_upto_Suc save_cid_query_run_def vn un)
  qed
qed

lemma vid_find_components:
  assumes "wait4complete g FIND_COMPONENTS (start_all g (graph_engine_create g)) = Some s1"
  shows "vid (index s1 i) = i"
  using vid_wait4complete [OF assms, of i]
  by (simp add: start_all_def graph_engine_create_def wcc_vertex_init_def)

lemma component_mark_empty: "component_id (mark_empty g v) = component_id v"
  by (simp add: mark_empty_def)

lemma compute_wcc_general:
  assumes N: "num_vertices g \<le> 2 ^ 32"
  shows "\<exists>s1 vec. wait4complete g FIND_COMPONENTS (start_all g (graph_engine_create g)) = Some s1 \<and>
     compute_wcc g none = Some vec \<and> length vec = num_vertices g \<and>
     (\<forall>v<num_vertices g. vec ! v =
        (if get_num_edges (page_of g (of_nat v)) BOTH_EDGES = 0 then none
         else component_id (index s1 (of_nat v))))"
proof -
  from wait4complete_quiescent obtain s1 where
    s1: "wait4complete g FIND_COMPONENTS (start_all g (graph_engine_create g)) = Some s1"
    by blast
  from wait4complete_quiescent obtain s2 where
    s2: "wait4complete g REMOVE_EMPTY (start_all g s1) = Some s2"
    by blast
  let ?vec = "query_on_all g none s2 (FG_vector_create g)"
  have cw: "compute_wcc g none = Some ?vec"
    by (simp add: compute_wcc_def s1 s2)
  have q: "?vec = query_upto (num_vertices g) none s2 (replicate (num_vertices g) 0)"
    by (simp add: query_on_all_def query_upto_def all_vertices_def FG_vector_create_def)
  have len: "length ?vec = num_vertices g"
    by (simp add: q length_query_upto)
  have idx2: "index s2 (of_nat i) = mark_empty g (index s1 (of_nat i))"
    if "i < num_vertices g" for i
  proof -
    from that have "of_nat i \<in> set (active (start_all g s1))"
      by (simp add: start_all_def all_vertices_def)
    from wait4complete_remove_empty [OF s2 this] show ?thesis
      by (simp add: start_all_def)
  qed
  have vid2: "vid (index s2 (of_nat i)) = of_nat i" if "i < num_vertices g" for i
    using vid_wait4complete [OF s2, of "of_nat i"] vid_find_components [OF s1, of "of_nat i"]
    by (simp add: start_all_def)
  have "?vec ! v =
        (if get_num_edges (page_of g (of_nat v)) BOTH_EDGES = 0 then none
         else component_id (index s1 (of_nat v)))" if v: "v < num_vertices g" for v
  proof -
    have "?vec ! v = (if empty (index s2 (of_nat v)) then none else component_id (index s2 (of_nat v)))"
      unfolding q using vid2 N v by (intro query_upto_nth) simp_all
    then show ?thesis
      by (simp add: idx2 [OF v] mark_empty_def vid_find_components [OF s1])
  qed
  with s1 cw len show ?thesis by blast
qed

text \<open>
  C5. From any engine state and for any graph, label propagation reaches quiescence after
  finitely many supersteps: there is a number \<open>n\<close> such that the state after \<open>n\<close>
  supersteps has no active vertex, every earlier state has one, and \<open>wait4complete\<close>
  returns that state. A delivery adopts a label exactly when it strictly decreases the
  label read as a natural number, and never increases it.
\<close>

theorem wcc_reaches_quiescence:
  "(\<exists>n s'. iterate_supersteps n g FIND_COMPONENTS s = Some s' \<and> active s' = [] \<and>
          wait4complete g FIND_COMPONENTS s = Some s' \<and>
          (\<forall>k<n. \<exists>sk. iterate_supersteps k g FIND_COMPONENTS s = Some sk \<and> active sk \<noteq> [])) \<and>
   (get_id m < component_id v) =
     (unat (component_id (run_on_message v m)) < unat (component_id v)) \<and>
   unat (component_id (run_on_message v m)) \<le> unat (component_id v)"
proof -
  have "(get_id m < component_id v) =
     (unat (component_id (run_on_message v m)) < unat (component_id v))"
    by (simp add: run_on_message_def word_less_nat_alt)
  moreover have "unat (component_id (run_on_message v m)) \<le> unat (component_id v)"
    by (simp add: run_on_message_def word_less_nat_alt)
  ultimately show ?thesis
    using wait4complete_iterate [of g FIND_COMPONENTS s] by blast
qed

theorem wcc_reaches_quiescence_witness:
  "(\<exists>n s'. iterate_supersteps n two_cliques FIND_COMPONENTS
             (start_all two_cliques (graph_engine_create two_cliques)) = Some s' \<and>
          active s' = []) \<and>
   map_option active (iterate_supersteps 3 two_cliques FIND_COMPONENTS
             (start_all two_cliques (graph_engine_create two_cliques))) = Some []"
proof -
  have "map_option active (iterate_supersteps 3 two_cliques FIND_COMPONENTS
             (start_all two_cliques (graph_engine_create two_cliques))) = Some []"
    by code_simp
  then show ?thesis
    using wcc_reaches_quiescence [where g = two_cliques
        and s = "start_all two_cliques (graph_engine_create two_cliques)"]
    by blast
qed

text \<open>
  C6. On two disjoint cliques \<open>{0, 1, 2}\<close> and \<open>{3, 4, 5}\<close> and an isolated vertex
  \<open>6\<close>, \<open>compute_wcc\<close> returns the labels \<open>0, 0, 0, 3, 3, 3\<close> and the invalid-vertex
  sentinel for vertex \<open>6\<close>. In general, for a graph whose vertex ids fit the id type,
  \<open>compute_wcc\<close> returns a vector with one entry per vertex, and the entry of every
  vertex without edges is the sentinel.
\<close>

theorem compute_wcc_two_cliques:
  "compute_wcc two_cliques none = Some [0, 0, 0, 3, 3, 3, none] \<and>
   (num_vertices g \<le> 2 ^ 32 \<longrightarrow>
     (\<exists>vec. compute_wcc g none = Some vec \<and> length vec = num_vertices g \<and>
        (\<forall>v<num_vertices g.
           get_num_edges (page_of g (of_nat v)) BOTH_EDGES = 0 \<longrightarrow> vec ! v = none)))"
proof -
  have "compute_wcc two_cliques none = Some [0, 0, 0, 3, 3, 3, none]"
    by code_simp
  moreover have "\<exists>vec. compute_wcc g none = Some vec \<and> length vec = num_vertices g \<and>
        (\<forall>v<num_vertices g.
           get_num_edges (page_of g (of_nat v)) BOTH_EDGES = 0 \<longrightarrow> vec ! v = none)"
    if "num_vertices g \<le> 2 ^ 32"
    using compute_wcc_general [OF that, of none] by auto
  ultimately show ?thesis by blast
qed

theorem compute_wcc_two_cliques_witness:
  "num_vertices two_cliques \<le> 2 ^ 32 \<and>
   get_num_edges (page_of two_cliques (of_nat 6)) BOTH_EDGES = 0 \<and>
   (\<exists>vec. compute_wcc two_cliques 4294967295 = Some vec \<and> length vec = 7 \<and>
      vec ! 6 = 4294967295)"
proof -
  have n: "num_vertices two_cliques \<le> 2 ^ 32" and n7: "num_vertices two_cliques = 7"
    by (simp_all add: two_cliques_def)
  have e: "get_num_edges (page_of two_cliques (of_nat 6)) BOTH_EDGES = 0"
    by (simp add: two_cliques_def clique_vertex_def get_num_edges_def)
  from compute_wcc_two_cliques [of 4294967295 two_cliques] n obtain vec where
    "compute_wcc two_cliques 4294967295 = Some vec" "length vec = num_vertices two_cliques"
    "\<forall>v<num_vertices two_cliques.
       get_num_edges (page_of two_cliques (of_nat v)) BOTH_EDGES = 0 \<longrightarrow> vec ! v = 4294967295"
    by blast
  with n7 e have "compute_wcc two_cliques 4294967295 = Some vec \<and> length vec = 7 \<and>
      vec ! 6 = 4294967295" by simp
  with n e show ?thesis by blast
qed

section \<open>Merging two neighbour lists (\<open>unique_merge\<close>, overlap.cpp)\<close>

text \<open>
  An iterator range is the list of the elements not yet consumed. \<open>skip_dups\<close> is the
  inner loop that folds the following duplicates of \<open>v\<close> into it; \<open>emit\<close> is the guarded
  write \<open>if (!skip(v)) *(result++) = v\<close>. \<open>unique_merge_loop\<close> yields the values written
  in order, \<open>unique_merge\<close> also their number, the function's return value.
  The assertion in \<open>merge_edge\<close> holds at every call: each call is guarded by the
  equality of its arguments.
\<close>

fun skip_dups :: "('a \<Rightarrow> 'a \<Rightarrow> 'a) \<Rightarrow> 'a \<Rightarrow> 'a list \<Rightarrow> 'a \<times> 'a list" where
  "skip_dups merge v [] = (v, [])"
| "skip_dups merge v (x # xs) =
     (if v = x then skip_dups merge (merge v x) xs else (v, x # xs))"

lemma length_skip_dups: "length (snd (skip_dups merge v xs)) \<le> length xs"
  by (induction xs arbitrary: v) (auto intro: le_SucI)

lemma skip_dups_shorter: "(v', xs') = skip_dups merge v xs \<Longrightarrow> length xs' \<le> length xs"
  using length_skip_dups [of merge v xs] by (auto dest: arg_cong [where f = snd])

definition emit :: "('a \<Rightarrow> bool) \<Rightarrow> 'a \<Rightarrow> 'a list" where
  "emit skip v = (if \<not> skip v then [v] else [])"

function unique_merge_loop ::
  "'a::linorder list \<Rightarrow> 'a list \<Rightarrow> ('a \<Rightarrow> bool) \<Rightarrow> ('a \<Rightarrow> 'a \<Rightarrow> 'a) \<Rightarrow> 'a list" where
  "unique_merge_loop (x # xs) (y # ys) skip merge =
     (if y < x then
        (case skip_dups merge y ys of
           (v, ys') \<Rightarrow> emit skip v @ unique_merge_loop (x # xs) ys' skip merge)
      else if x < y then
        (case skip_dups merge x xs of
           (v, xs') \<Rightarrow> emit skip v @ unique_merge_loop xs' (y # ys) skip merge)
      else
        (case skip_dups merge (merge x y) ys of
           (v, ys') \<Rightarrow>
             (case skip_dups merge v xs of
                (v', xs') \<Rightarrow> emit skip v' @ unique_merge_loop xs' ys' skip merge)))"
| "unique_merge_loop (x # xs) [] skip merge =
     (case skip_dups merge x xs of
        (v, xs') \<Rightarrow> emit skip v @ unique_merge_loop xs' [] skip merge)"
| "unique_merge_loop [] (y # ys) skip merge =
     (case skip_dups merge y ys of
        (v, ys') \<Rightarrow> emit skip v @ unique_merge_loop [] ys' skip merge)"
| "unique_merge_loop [] [] skip merge = []"
  by pat_completeness auto
termination
  by (relation "measure (\<lambda>(xs, ys, skip, merge). length xs + length ys)")
     (auto dest!: skip_dups_shorter)

definition unique_merge ::
  "'a::linorder list \<Rightarrow> 'a list \<Rightarrow> ('a \<Rightarrow> bool) \<Rightarrow> ('a \<Rightarrow> 'a \<Rightarrow> 'a) \<Rightarrow> nat \<times> 'a list" where
  "unique_merge xs ys skip merge =
     (let written = unique_merge_loop xs ys skip merge in (length written, written))"

lemma skip_dups_idem:
  "(\<And>a. merge a a = a) \<Longrightarrow> skip_dups merge v xs = (v, dropWhile (\<lambda>x. v = x) xs)"
  by (induction xs) auto

lemma dropWhile_eq_sorted:
  "sorted xs \<Longrightarrow> (\<And>x. x \<in> set xs \<Longrightarrow> v \<le> x) \<Longrightarrow>
   sorted (dropWhile (\<lambda>x. v = x) xs) \<and>
   set (dropWhile (\<lambda>x. v = x) xs) = set xs - {v} \<and>
   (\<forall>z\<in>set (dropWhile (\<lambda>x. v = x) xs). v < z)"
proof (induction xs)
  case Nil
  show ?case by simp
next
  case (Cons x xs)
  show ?case
  proof (cases "v = x")
    case True
    with Cons show ?thesis by auto
  next
    case False
    with Cons.prems have "v < x" by (simp add: order_less_le)
    moreover from Cons.prems(1) have "\<forall>z\<in>set xs. x \<le> z" by simp
    ultimately have "\<forall>z\<in>set (x # xs). v < z" by auto
    with False Cons.prems(1) show ?thesis by auto
  qed
qed

lemma skip_dups_sorted:
  assumes idem: "\<And>a. merge a a = a" and srt: "sorted (v # xs)"
    and sk: "(w, xs') = skip_dups merge v xs"
  shows "w = v \<and> sorted xs' \<and> set xs' = set xs - {v} \<and> (\<forall>z\<in>set xs'. v < z)"
proof -
  from sk idem have "w = v" and xs': "xs' = dropWhile (\<lambda>x. v = x) xs"
    by (simp_all add: skip_dups_idem)
  from srt have "sorted xs" and "\<And>x. x \<in> set xs \<Longrightarrow> v \<le> x" by simp_all
  from dropWhile_eq_sorted [OF this] \<open>w = v\<close> xs' show ?thesis by simp
qed

lemma set_emit: "set (emit skip v) = {v} - Collect skip"
  by (auto simp: emit_def)

lemma sorted_emit_append:
  "sorted_wrt (<) zs \<Longrightarrow> (\<And>z. z \<in> set zs \<Longrightarrow> v < z) \<Longrightarrow> sorted_wrt (<) (emit skip v @ zs)"
  by (simp add: emit_def)

lemma unique_merge_loop_correct:
  "\<forall>a. merge a a = a \<Longrightarrow> sorted xs \<Longrightarrow> sorted ys \<Longrightarrow>
     set (unique_merge_loop xs ys skip merge) = (set xs \<union> set ys) - Collect skip \<and>
     sorted_wrt (<) (unique_merge_loop xs ys skip merge)"
proof (induction xs ys skip merge rule: unique_merge_loop.induct)
  case (1 x xs y ys skip merge)
  from "1.prems"(1) have idem: "\<And>a. merge a a = a" by simp
  consider (lt2) "y < x" | (lt1) "\<not> y < x" "x < y" | (eq) "\<not> y < x" "\<not> x < y"
    by blast
  then show ?case
  proof cases
    case lt2
    obtain v ys' where sk: "(v, ys') = skip_dups merge y ys"
      by (cases "skip_dups merge y ys") simp
    from skip_dups_sorted [OF idem "1.prems"(3) sk]
    have v: "v = y" and s': "sorted ys'" and set': "set ys' = set ys - {y}"
      and gt: "\<forall>z\<in>set ys'. y < z" by simp_all
    from "1.IH"(1) [OF lt2 sk "1.prems"(1) "1.prems"(2) s']
    have ih: "set (unique_merge_loop (x # xs) ys' skip merge) = (set (x # xs) \<union> set ys') - Collect skip"
      and ihs: "sorted_wrt (<) (unique_merge_loop (x # xs) ys' skip merge)" by simp_all
    have all_gt: "\<And>z. z \<in> set (unique_merge_loop (x # xs) ys' skip merge) \<Longrightarrow> y < z"
      using ih gt lt2 "1.prems"(2) by auto
    have eq: "unique_merge_loop (x # xs) (y # ys) skip merge =
        emit skip y @ unique_merge_loop (x # xs) ys' skip merge"
      using lt2 sk [symmetric] v by simp
    have "sorted_wrt (<) (emit skip y @ unique_merge_loop (x # xs) ys' skip merge)"
      using ihs all_gt by (rule sorted_emit_append)
    moreover have "set (emit skip y @ unique_merge_loop (x # xs) ys' skip merge) =
       (set (x # xs) \<union> set (y # ys)) - Collect skip"
      using ih set' by (auto simp: set_emit)
    ultimately show ?thesis by (simp only: eq)
  next
    case lt1
    obtain v xs' where sk: "(v, xs') = skip_dups merge x xs"
      by (cases "skip_dups merge x xs") simp
    from skip_dups_sorted [OF idem "1.prems"(2) sk]
    have v: "v = x" and s': "sorted xs'" and set': "set xs' = set xs - {x}"
      and gt: "\<forall>z\<in>set xs'. x < z" by simp_all
    from "1.IH"(2) [OF lt1 sk "1.prems"(1) s' "1.prems"(3)]
    have ih: "set (unique_merge_loop xs' (y # ys) skip merge) = (set xs' \<union> set (y # ys)) - Collect skip"
      and ihs: "sorted_wrt (<) (unique_merge_loop xs' (y # ys) skip merge)" by simp_all
    have all_gt: "\<And>z. z \<in> set (unique_merge_loop xs' (y # ys) skip merge) \<Longrightarrow> x < z"
      using ih gt lt1 "1.prems"(3) by auto
    have eq: "unique_merge_loop (x # xs) (y # ys) skip merge =
        emit skip x @ unique_merge_loop xs' (y # ys) skip merge"
      using lt1 sk [symmetric] v by simp
    have "sorted_wrt (<) (emit skip x @ unique_merge_loop xs' (y # ys) skip merge)"
      using ihs all_gt by (rule sorted_emit_append)
    moreover have "set (emit skip x @ unique_merge_loop xs' (y # ys) skip merge) =
       (set (x # xs) \<union> set (y # ys)) - Collect skip"
      using ih set' by (auto simp: set_emit)
    ultimately show ?thesis by (simp only: eq)
  next
    case eq
    then have xy: "x = y" by simp
    then have m: "merge x y = x" by (simp add: idem)
    obtain v ys' where sk2: "(v, ys') = skip_dups merge (merge x y) ys"
      by (cases "skip_dups merge (merge x y) ys") simp
    have srt2: "sorted (merge x y # ys)" using "1.prems"(3) xy m by simp
    from skip_dups_sorted [OF idem srt2 sk2] m
    have v: "v = x" and s2': "sorted ys'" and set2': "set ys' = set ys - {x}"
      and gt2: "\<forall>z\<in>set ys'. x < z" by simp_all
    obtain v' xs' where sk1: "(v', xs') = skip_dups merge v xs"
      by (cases "skip_dups merge v xs") simp
    have srt1: "sorted (v # xs)" using "1.prems"(2) v by simp
    from skip_dups_sorted [OF idem srt1 sk1] v
    have v': "v' = x" and s1': "sorted xs'" and set1': "set xs' = set xs - {x}"
      and gt1: "\<forall>z\<in>set xs'. x < z" by simp_all
    from "1.IH"(3) [OF eq sk2 sk1 "1.prems"(1) s1' s2']
    have ih: "set (unique_merge_loop xs' ys' skip merge) = (set xs' \<union> set ys') - Collect skip"
      and ihs: "sorted_wrt (<) (unique_merge_loop xs' ys' skip merge)" by simp_all
    have all_gt: "\<And>z. z \<in> set (unique_merge_loop xs' ys' skip merge) \<Longrightarrow> x < z"
      using ih gt1 gt2 by auto
    have eqn: "unique_merge_loop (x # xs) (y # ys) skip merge =
        emit skip x @ unique_merge_loop xs' ys' skip merge"
      using eq sk2 [symmetric] sk1 [symmetric] v v' by simp
    have "sorted_wrt (<) (emit skip x @ unique_merge_loop xs' ys' skip merge)"
      using ihs all_gt by (rule sorted_emit_append)
    moreover have "set (emit skip x @ unique_merge_loop xs' ys' skip merge) =
       (set (x # xs) \<union> set (y # ys)) - Collect skip"
      using ih set1' set2' xy by (auto simp: set_emit)
    ultimately show ?thesis by (simp only: eqn)
  qed
next
  case (2 x xs skip merge)
  from "2.prems"(1) have idem: "\<And>a. merge a a = a" by simp
  obtain v xs' where sk: "(v, xs') = skip_dups merge x xs"
    by (cases "skip_dups merge x xs") simp
  from skip_dups_sorted [OF idem "2.prems"(2) sk]
  have v: "v = x" and s': "sorted xs'" and set': "set xs' = set xs - {x}"
    and gt: "\<forall>z\<in>set xs'. x < z" by simp_all
  from "2.IH" [OF sk "2.prems"(1) s' "2.prems"(3)]
  have ih: "set (unique_merge_loop xs' [] skip merge) = set xs' - Collect skip"
    and ihs: "sorted_wrt (<) (unique_merge_loop xs' [] skip merge)" by simp_all
  have all_gt: "\<And>z. z \<in> set (unique_merge_loop xs' [] skip merge) \<Longrightarrow> x < z"
    using ih gt by auto
  have eq: "unique_merge_loop (x # xs) [] skip merge =
      emit skip x @ unique_merge_loop xs' [] skip merge"
    using sk [symmetric] v by simp
  have "sorted_wrt (<) (emit skip x @ unique_merge_loop xs' [] skip merge)"
    using ihs all_gt by (rule sorted_emit_append)
  moreover have "set (emit skip x @ unique_merge_loop xs' [] skip merge) =
     (set (x # xs) \<union> set []) - Collect skip"
    using ih set' by (auto simp: set_emit)
  ultimately show ?case by (simp only: eq)
next
  case (3 y ys skip merge)
  from "3.prems"(1) have idem: "\<And>a. merge a a = a" by simp
  obtain v ys' where sk: "(v, ys') = skip_dups merge y ys"
    by (cases "skip_dups merge y ys") simp
  from skip_dups_sorted [OF idem "3.prems"(3) sk]
  have v: "v = y" and s': "sorted ys'" and set': "set ys' = set ys - {y}"
    and gt: "\<forall>z\<in>set ys'. y < z" by simp_all
  from "3.IH" [OF sk "3.prems"(1) "3.prems"(2) s']
  have ih: "set (unique_merge_loop [] ys' skip merge) = set ys' - Collect skip"
    and ihs: "sorted_wrt (<) (unique_merge_loop [] ys' skip merge)" by simp_all
  have all_gt: "\<And>z. z \<in> set (unique_merge_loop [] ys' skip merge) \<Longrightarrow> y < z"
    using ih gt by auto
  have eq: "unique_merge_loop [] (y # ys) skip merge =
      emit skip y @ unique_merge_loop [] ys' skip merge"
    using sk [symmetric] v by simp
  have "sorted_wrt (<) (emit skip y @ unique_merge_loop [] ys' skip merge)"
    using ihs all_gt by (rule sorted_emit_append)
  moreover have "set (emit skip y @ unique_merge_loop [] ys' skip merge) =
     (set [] \<union> set (y # ys)) - Collect skip"
    using ih set' by (auto simp: set_emit)
  ultimately show ?case by (simp only: eq)
next
  case (4 skip merge)
  show ?case by simp
qed

text \<open>
  \<open>get_unique_neighbors\<close> resizes the vector to the number of edges, lets \<open>unique_merge\<close>
  write from its beginning and cuts it to the number written. Writing past the end of the
  vector is the result \<open>None\<close>.
\<close>

definition skip_self :: "vertex_id_t \<Rightarrow> vertex_id_t \<Rightarrow> bool" where
  "skip_self self i = (self = i)"

definition merge_edge :: "vertex_id_t \<Rightarrow> vertex_id_t \<Rightarrow> vertex_id_t" where
  "merge_edge e1 e2 = e1"

definition resize :: "'a::zero list \<Rightarrow> nat \<Rightarrow> 'a list" where
  "resize xs n = take n xs @ replicate (n - length xs) 0"

definition get_unique_neighbors ::
  "page_vertex \<Rightarrow> vertex_id_t list \<Rightarrow> (nat \<times> vertex_id_t list) option" where
  "get_unique_neighbors vertex neighbors =
     (let neighbors1 = resize neighbors (get_num_edges vertex BOTH_EDGES);
          (num_neighbors, written) =
             unique_merge (get_neigh_seq vertex IN_EDGE) (get_neigh_seq vertex OUT_EDGE)
               (skip_self (pv_id vertex)) merge_edge
      in if length neighbors1 < length written then None
         else Some (num_neighbors, resize (written @ drop (length written) neighbors1) num_neighbors))"

lemma length_emit: "length (emit skip v) \<le> 1"
  by (simp add: emit_def)

lemma unique_merge_loop_bound:
  "length (unique_merge_loop xs ys skip merge) \<le> length xs + length ys"
proof (induction xs ys skip merge rule: unique_merge_loop.induct)
  case (1 x xs y ys skip merge)
  consider (lt2) "y < x" | (lt1) "\<not> y < x" "x < y" | (eq) "\<not> y < x" "\<not> x < y"
    by blast
  then show ?case
  proof cases
    case lt2
    obtain v ys' where sk: "(v, ys') = skip_dups merge y ys"
      by (cases "skip_dups merge y ys") simp
    from "1.IH"(1) [OF lt2 sk] skip_dups_shorter [OF sk] length_emit [of skip v]
    have "length (emit skip v) + length (unique_merge_loop (x # xs) ys' skip merge)
            \<le> length (x # xs) + length (y # ys)" by simp
    with lt2 sk [symmetric] show ?thesis by simp
  next
    case lt1
    obtain v xs' where sk: "(v, xs') = skip_dups merge x xs"
      by (cases "skip_dups merge x xs") simp
    from "1.IH"(2) [OF lt1 sk] skip_dups_shorter [OF sk] length_emit [of skip v]
    have "length (emit skip v) + length (unique_merge_loop xs' (y # ys) skip merge)
            \<le> length (x # xs) + length (y # ys)" by simp
    with lt1 sk [symmetric] show ?thesis by simp
  next
    case eq
    obtain v ys' where sk2: "(v, ys') = skip_dups merge (merge x y) ys"
      by (cases "skip_dups merge (merge x y) ys") simp
    obtain v' xs' where sk1: "(v', xs') = skip_dups merge v xs"
      by (cases "skip_dups merge v xs") simp
    from "1.IH"(3) [OF eq sk2 sk1] skip_dups_shorter [OF sk2] skip_dups_shorter [OF sk1]
      length_emit [of skip v']
    have "length (emit skip v') + length (unique_merge_loop xs' ys' skip merge)
            \<le> length (x # xs) + length (y # ys)" by simp
    with eq sk2 [symmetric] sk1 [symmetric] show ?thesis by simp
  qed
next
  case (2 x xs skip merge)
  obtain v xs' where sk: "(v, xs') = skip_dups merge x xs"
    by (cases "skip_dups merge x xs") simp
  from "2.IH" [OF sk] skip_dups_shorter [OF sk] length_emit [of skip v]
  have "length (emit skip v) + length (unique_merge_loop xs' [] skip merge) \<le> length (x # xs)"
    by simp
  with sk [symmetric] show ?case by simp
next
  case (3 y ys skip merge)
  obtain v ys' where sk: "(v, ys') = skip_dups merge y ys"
    by (cases "skip_dups merge y ys") simp
  from "3.IH" [OF sk] skip_dups_shorter [OF sk] length_emit [of skip v]
  have "length (emit skip v) + length (unique_merge_loop [] ys' skip merge) \<le> length (y # ys)"
    by simp
  with sk [symmetric] show ?case by simp
next
  case (4 skip merge)
  show ?case by simp
qed

text \<open>
  C10. For two ascending input ranges and a merger that returns its argument when both
  are equal (as \<open>merge_edge\<close> does), \<open>unique_merge\<close> writes a strictly ascending, hence
  duplicate-free, sequence whose elements are exactly the values of either range that the
  skip predicate rejects, and returns its length. So \<open>get_unique_neighbors\<close>, on a vertex
  whose two edge lists are ascending, stays inside the buffer and yields the ascending
  sequence of the distinct in- and out-neighbours other than the vertex itself.
\<close>

theorem unique_merge_spec:
  "((\<forall>a. merge a a = a) \<and> sorted xs \<and> sorted ys \<longrightarrow>
      (case unique_merge xs ys skip merge of
         (n, out) \<Rightarrow> sorted_wrt (<) out \<and> distinct out \<and>
            set out = (set xs \<union> set ys) - {v. skip v} \<and> n = length out)) \<and>
   (sorted (in_edges vertex) \<and> sorted (out_edges vertex) \<longrightarrow>
      (\<exists>nb. get_unique_neighbors vertex neighbors = Some (length nb, nb) \<and>
         sorted_wrt (<) nb \<and> distinct nb \<and>
         set nb = (set (in_edges vertex) \<union> set (out_edges vertex)) - {pv_id vertex}))"
proof (intro conjI impI)
  assume a: "(\<forall>a. merge a a = a) \<and> sorted xs \<and> sorted ys"
  with unique_merge_loop_correct [where merge = merge and xs = xs and ys = ys and skip = skip]
  show "case unique_merge xs ys skip merge of
         (n, out) \<Rightarrow> sorted_wrt (<) out \<and> distinct out \<and>
            set out = (set xs \<union> set ys) - {v. skip v} \<and> n = length out"
    by (simp add: unique_merge_def strict_sorted_iff Let_def)
next
  assume a: "sorted (in_edges vertex) \<and> sorted (out_edges vertex)"
  let ?nb = "unique_merge_loop (in_edges vertex) (out_edges vertex) (skip_self (pv_id vertex)) merge_edge"
  have idem: "\<forall>a. merge_edge a a = a" by (simp add: merge_edge_def)
  from unique_merge_loop_correct [where merge = merge_edge and xs = "in_edges vertex"
      and ys = "out_edges vertex" and skip = "skip_self (pv_id vertex)"] idem a
  have st: "set ?nb = (set (in_edges vertex) \<union> set (out_edges vertex)) - {pv_id vertex}"
    and so: "sorted_wrt (<) ?nb"
    by (auto simp: skip_self_def)
  have len: "length ?nb \<le> length (in_edges vertex) + length (out_edges vertex)"
    by (rule unique_merge_loop_bound)
  then have "get_unique_neighbors vertex neighbors = Some (length ?nb, ?nb)"
    by (simp add: get_unique_neighbors_def unique_merge_def get_num_edges_def resize_def Let_def)
  with st so show "\<exists>nb. get_unique_neighbors vertex neighbors = Some (length nb, nb) \<and>
         sorted_wrt (<) nb \<and> distinct nb \<and>
         set nb = (set (in_edges vertex) \<union> set (out_edges vertex)) - {pv_id vertex}"
    by (auto simp: strict_sorted_iff)
qed

theorem unique_merge_spec_witness:
  "(\<forall>a. merge_edge a a = a) \<and> sorted [1, 2, 2, 5 :: vertex_id_t] \<and> sorted [2, 3, 5, 5, 7 :: vertex_id_t] \<and>
   unique_merge [1, 2, 2, 5] [2, 3, 5, 5, 7] (skip_self 3) merge_edge = (4, [1, 2, 5, 7]) \<and>
   sorted_wrt (<) (snd (unique_merge [1, 2, 2, 5] [2, 3, 5, 5, 7] (skip_self 3) merge_edge)) \<and>
   get_unique_neighbors \<lparr>pv_id = 3, in_edges = [1, 2, 2, 5], out_edges = [2, 3, 5, 5, 7]\<rparr> []
     = Some (4, [1, 2, 5, 7])"
proof -
  have h: "(\<forall>a. merge_edge a a = a) \<and> sorted [1, 2, 2, 5 :: vertex_id_t] \<and> sorted [2, 3, 5, 5, 7 :: vertex_id_t]"
    by (simp add: merge_edge_def)
  have e: "unique_merge [1, 2, 2, 5] [2, 3, 5, 5, 7] (skip_self 3) merge_edge = (4, [1, 2, 5, 7])"
    by (simp add: unique_merge_def emit_def skip_self_def merge_edge_def)
  have g: "get_unique_neighbors \<lparr>pv_id = 3, in_edges = [1, 2, 2, 5], out_edges = [2, 3, 5, 5, 7]\<rparr> []
     = Some (4, [1, 2, 5, 7])"
    by (simp add: get_unique_neighbors_def get_num_edges_def resize_def
        unique_merge_def emit_def skip_self_def merge_edge_def)
  from unique_merge_spec [where merge = merge_edge and xs = "[1, 2, 2, 5]" and ys = "[2, 3, 5, 5, 7]"
      and skip = "skip_self 3"] h
  have "sorted_wrt (<) (snd (unique_merge [1, 2, 2, 5] [2, 3, 5, 5, 7] (skip_self 3) merge_edge))"
    by (simp add: split_beta)
  with h e g show ?thesis by blast
qed

section \<open>Sorting with a comparator (\<open>std::sort\<close>)\<close>

text \<open>
  \<open>std::sort\<close> belongs to the C++ library. Its contract is all the callers rely on: the
  result is a permutation of the input in which no later element is ordered before an
  earlier one by the comparator; the order among equivalent elements is left open. The
  functions that sort take the sorting function as a parameter, and their properties are
  proved for every function that meets the contract. \<open>insertion_sort\<close> is one such
  function, used to run the definitions on concrete inputs.
\<close>

definition std_sort_post :: "('a \<Rightarrow> 'a \<Rightarrow> bool) \<Rightarrow> 'a list \<Rightarrow> 'a list \<Rightarrow> bool" where
  "std_sort_post cmp xs ys = (mset ys = mset xs \<and> sorted_wrt (\<lambda>a b. \<not> cmp b a) ys)"

fun insert_by :: "('a \<Rightarrow> 'a \<Rightarrow> bool) \<Rightarrow> 'a \<Rightarrow> 'a list \<Rightarrow> 'a list" where
  "insert_by cmp x [] = [x]"
| "insert_by cmp x (y # ys) = (if cmp y x then y # insert_by cmp x ys else x # y # ys)"

definition insertion_sort :: "('a \<Rightarrow> 'a \<Rightarrow> bool) \<Rightarrow> 'a list \<Rightarrow> 'a list" where
  "insertion_sort cmp xs = foldr (insert_by cmp) xs []"

lemma mset_insert_by: "mset (insert_by cmp x ys) = add_mset x (mset ys)"
  by (induction ys) simp_all

lemma set_insert_by: "set (insert_by cmp x ys) = insert x (set ys)"
  by (induction ys) auto

lemma sorted_insert_by:
  assumes asym: "\<And>a b. cmp a b \<Longrightarrow> \<not> cmp b a"
    and trans: "\<And>a b c. \<not> cmp b a \<Longrightarrow> \<not> cmp c b \<Longrightarrow> \<not> cmp c a"
  shows "sorted_wrt (\<lambda>a b. \<not> cmp b a) ys \<Longrightarrow> sorted_wrt (\<lambda>a b. \<not> cmp b a) (insert_by cmp x ys)"
proof (induction ys)
  case Nil
  show ?case by simp
next
  case (Cons y ys)
  show ?case
  proof (cases "cmp y x")
    case True
    then have "\<not> cmp x y" by (rule asym)
    with Cons True show ?thesis by (auto simp: set_insert_by)
  next
    case False
    have "\<not> cmp z x" if "z \<in> set ys" for z
    proof -
      from Cons.prems that have "\<not> cmp z y" by simp
      with False show ?thesis by (rule trans)
    qed
    with Cons.prems False show ?thesis by auto
  qed
qed

lemma insertion_sort_post:
  assumes asym: "\<And>a b. cmp a b \<Longrightarrow> \<not> cmp b a"
    and trans: "\<And>a b c. \<not> cmp b a \<Longrightarrow> \<not> cmp c b \<Longrightarrow> \<not> cmp c a"
  shows "std_sort_post cmp xs (insertion_sort cmp xs)"
proof -
  have "mset (insertion_sort cmp xs) = mset xs"
    by (induction xs) (simp_all add: insertion_sort_def mset_insert_by)
  moreover have "sorted_wrt (\<lambda>a b. \<not> cmp b a) (insertion_sort cmp xs)"
  proof (induction xs)
    case Nil
    show ?case by (simp add: insertion_sort_def)
  next
    case (Cons x xs)
    have "sorted_wrt (\<lambda>a b. \<not> cmp b a) (insert_by cmp x (insertion_sort cmp xs))"
    proof (rule sorted_insert_by)
      show "\<And>a b. cmp a b \<Longrightarrow> \<not> cmp b a" by (rule asym)
      show "\<And>a b c. \<not> cmp b a \<Longrightarrow> \<not> cmp c b \<Longrightarrow> \<not> cmp c a" by (rule trans)
      show "sorted_wrt (\<lambda>a b. \<not> cmp b a) (insertion_sort cmp xs)" by (rule Cons.IH)
    qed
    then show ?case by (simp add: insertion_sort_def)
  qed
  ultimately show ?thesis by (simp add: std_sort_post_def)
qed


section \<open>Largest-degree-first scheduling (\<open>vertex_size_scheduler\<close>, topK\_scan\_graph.cpp)\<close>

text \<open>
  A compute vertex carries its id and its number of edges; the edge count is held as a
  \<open>size_t\<close>, the type of the variables the callers read it into. \<open>get_vertex\<close> is the
  engine's vertex index. \<open>schedule\<close> looks the vertices up, sorts them with \<open>comp_size\<close>
  and writes their ids back.
\<close>

record compute_vertex =
  cv_id :: vertex_id_t
  num_edges :: size_t

definition comp_size :: "compute_vertex \<Rightarrow> compute_vertex \<Rightarrow> bool" where
  "comp_size v1 v2 = (num_edges v1 > num_edges v2)"

definition schedule ::
  "(compute_vertex list \<Rightarrow> compute_vertex list) \<Rightarrow> (vertex_id_t \<Rightarrow> compute_vertex) \<Rightarrow>
     vertex_id_t list \<Rightarrow> vertex_id_t list" where
  "schedule sort_fn get_vertex ids =
     (let vertices = map get_vertex ids;
          vertices' = sort_fn vertices
      in map cv_id vertices')"

definition three_vertices :: "vertex_id_t \<Rightarrow> compute_vertex" where
  "three_vertices i = \<lparr>cv_id = i, num_edges = (if i = 0 then 3 else if i = 1 then 7 else 5)\<rparr>"


lemma insertion_sort_comp_size: "std_sort_post comp_size xs (insertion_sort comp_size xs)"
  by (rule insertion_sort_post) (auto simp: comp_size_def)

text \<open>
  C7. For every sorting function that meets the contract of \<open>std::sort\<close> and every
  vector of ids that the index maps to vertices carrying those ids, \<open>schedule\<close> returns
  a permutation of the vector in which the edge counts never increase.
\<close>

theorem schedule_spec:
  assumes srt: "\<forall>xs. std_sort_post comp_size xs (sort_fn xs)"
    and valid: "\<forall>i\<in>set ids. cv_id (get_vertex i) = i"
  shows "mset (schedule sort_fn get_vertex ids) = mset ids \<and>
         sorted_wrt (\<lambda>a b. num_edges (get_vertex a) \<ge> num_edges (get_vertex b))
           (schedule sort_fn get_vertex ids)"
proof -
  let ?vs = "sort_fn (map get_vertex ids)"
  from srt have ms: "mset ?vs = mset (map get_vertex ids)"
    and so: "sorted_wrt (\<lambda>a b. \<not> comp_size b a) ?vs"
    by (simp_all add: std_sort_post_def)
  have "mset (map cv_id ?vs) = image_mset cv_id (mset ?vs)" by simp
  also have "\<dots> = image_mset cv_id (mset (map get_vertex ids))" by (simp only: ms)
  also have "\<dots> = image_mset (\<lambda>i. cv_id (get_vertex i)) (mset ids)"
    by (simp add: multiset.map_comp comp_def)
  also have "\<dots> = image_mset (\<lambda>i. i) (mset ids)"
    using valid by (intro image_mset_cong) simp
  finally have perm: "mset (schedule sort_fn get_vertex ids) = mset ids"
    by (simp add: schedule_def)
  have roundtrip: "get_vertex (cv_id v) = v" if "v \<in> set ?vs" for v
  proof -
    from ms have "set ?vs = set (map get_vertex ids)" by (rule mset_eq_setD)
    with that have "v \<in> set (map get_vertex ids)" by simp
    then obtain i where "i \<in> set ids" "v = get_vertex i" by auto
    with valid show ?thesis by simp
  qed
  have "sorted_wrt (\<lambda>a b. num_edges (get_vertex (cv_id a)) \<ge> num_edges (get_vertex (cv_id b))) ?vs"
    using so
  proof (rule sorted_wrt_mono_rel [rotated])
    fix a b assume "a \<in> set ?vs" "b \<in> set ?vs" "\<not> comp_size b a"
    then show "num_edges (get_vertex (cv_id b)) \<le> num_edges (get_vertex (cv_id a))"
      by (simp add: roundtrip comp_size_def)
  qed
  then have "sorted_wrt (\<lambda>a b. num_edges (get_vertex a) \<ge> num_edges (get_vertex b))
           (schedule sort_fn get_vertex ids)"
    by (simp add: schedule_def sorted_wrt_map)
  with perm show ?thesis by simp
qed

theorem schedule_spec_witness:
  "(\<forall>xs. std_sort_post comp_size xs (insertion_sort comp_size xs)) \<and>
   cv_id (three_vertices 0) = 0 \<and> cv_id (three_vertices 1) = 1 \<and>
   cv_id (three_vertices 2) = 2 \<and>
   schedule (insertion_sort comp_size) three_vertices [0, 1, 2] = [1, 2, 0] \<and>
   mset (schedule (insertion_sort comp_size) three_vertices [0, 1, 2]) = mset [0, 1, 2] \<and>
   sorted_wrt (\<lambda>a b. num_edges (three_vertices a) \<ge> num_edges (three_vertices b))
     (schedule (insertion_sort comp_size) three_vertices [0, 1, 2])"
proof -
  have srt: "\<forall>xs. std_sort_post comp_size xs (insertion_sort comp_size xs)"
    using insertion_sort_comp_size by blast
  have valid: "\<forall>i\<in>set [0, 1, 2]. cv_id (three_vertices i) = i"
    by (simp add: three_vertices_def)
  have ev: "schedule (insertion_sort comp_size) three_vertices [0, 1, 2] = [1, 2, 0]"
    by (simp add: schedule_def insertion_sort_def comp_size_def three_vertices_def)
  have ids: "cv_id (three_vertices 0) = 0 \<and> cv_id (three_vertices 1) = 1 \<and>
    cv_id (three_vertices 2) = 2"
    by (simp add: three_vertices_def)
  from schedule_spec [OF srt valid] srt ids ev show ?thesis by blast
qed


section \<open>The collection of known scans (\<open>scan_collection\<close>, topK\_scan\_graph.cpp)\<close>

text \<open>
  The field \<open>sorted\<close> of the class is called \<open>sorted_flag\<close> here, and the comparator
  \<open>greater\<close> is \<open>greater_scan\<close>. \<open>get\<close> takes an \<open>int\<close> index and reads the vector
  without a bounds check; a read outside the vector is the result \<open>Out_of_bounds\<close>.
  \<open>run_ops\<close> applies a sequence of calls to a collection, \<open>added\<close> lists the entries
  the sequence adds.
\<close>

type_synonym vertex_scan = "vertex_id_t \<times> size_t"

definition greater_scan :: "vertex_scan \<Rightarrow> vertex_scan \<Rightarrow> bool" where
  "greater_scan s1 s2 = (snd s1 > snd s2)"

datatype fault = Out_of_bounds

record scan_collection =
  sorted_flag :: bool
  scans :: "vertex_scan list"

definition scan_collection_init :: scan_collection where
  "scan_collection_init = \<lparr>sorted_flag = False, scans = []\<rparr>"

definition scan_collection_get ::
  "(vertex_scan list \<Rightarrow> vertex_scan list) \<Rightarrow> int \<Rightarrow> scan_collection \<Rightarrow>
     fault + (vertex_scan \<times> scan_collection)" where
  "scan_collection_get sort_fn idx s =
     (let s1 = (if \<not> sorted_flag s
                then s\<lparr>scans := sort_fn (scans s), sorted_flag := True\<rparr>
                else s)
      in if 0 \<le> idx \<and> idx < int (length (scans s1))
         then Inr (scans s1 ! nat idx, s1)
         else Inl Out_of_bounds)"

definition scan_collection_add :: "vertex_id_t \<Rightarrow> size_t \<Rightarrow> scan_collection \<Rightarrow> scan_collection" where
  "scan_collection_add i scan s = s\<lparr>sorted_flag := False, scans := scans s @ [(i, scan)]\<rparr>"

definition get_size :: "scan_collection \<Rightarrow> size_t" where
  "get_size s = of_nat (length (scans s))"

datatype scan_op = Add vertex_id_t size_t | Get int

fun run_ops ::
  "(vertex_scan list \<Rightarrow> vertex_scan list) \<Rightarrow> scan_op list \<Rightarrow> scan_collection \<Rightarrow> scan_collection option" where
  "run_ops sort_fn [] s = Some s"
| "run_ops sort_fn (Add i scan # ops) s = run_ops sort_fn ops (scan_collection_add i scan s)"
| "run_ops sort_fn (Get k # ops) s =
     (case scan_collection_get sort_fn k s of
        Inl f \<Rightarrow> None
      | Inr (e, s') \<Rightarrow> run_ops sort_fn ops s')"

fun added :: "scan_op list \<Rightarrow> vertex_scan list" where
  "added [] = []"
| "added (Add i scan # ops) = (i, scan) # added ops"
| "added (Get k # ops) = added ops"

definition sc_inv :: "scan_collection \<Rightarrow> bool" where
  "sc_inv s = (sorted_flag s \<longrightarrow> sorted_wrt (\<lambda>a b. snd a \<ge> snd b) (scans s))"

subsection \<open>Lazy sorting\<close>

lemma sort_post_greater:
  "std_sort_post greater_scan xs ys =
     (mset ys = mset xs \<and> sorted_wrt (\<lambda>a b. snd a \<ge> snd b) ys)"
  by (simp add: std_sort_post_def greater_scan_def not_less)

lemma sc_inv_init: "sc_inv scan_collection_init"
  by (simp add: sc_inv_def scan_collection_init_def)

lemma sc_inv_add: "sc_inv (scan_collection_add i scan s)"
  by (simp add: sc_inv_def scan_collection_add_def)

lemma mset_add: "mset (scans (scan_collection_add i scan s)) = add_mset (i, scan) (mset (scans s))"
  by (simp add: scan_collection_add_def)

lemma get_result:
  assumes srt: "\<forall>xs. std_sort_post greater_scan xs (sort_fn xs)"
    and inv: "sc_inv s"
    and res: "scan_collection_get sort_fn idx s = Inr (e, s')"
  shows "sc_inv s'" and "sorted_flag s'" and "mset (scans s') = mset (scans s)"
    and "sorted_wrt (\<lambda>a b. snd a \<ge> snd b) (scans s')"
    and "scans s' = (if sorted_flag s then scans s else sort_fn (scans s))"
    and "0 \<le> idx" and "nat idx < length (scans s')" and "e = scans s' ! nat idx"
proof -
  have all: "sc_inv s' \<and> sorted_flag s' \<and> mset (scans s') = mset (scans s) \<and>
         sorted_wrt (\<lambda>a b. snd a \<ge> snd b) (scans s') \<and>
         scans s' = (if sorted_flag s then scans s else sort_fn (scans s)) \<and>
         0 \<le> idx \<and> nat idx < length (scans s') \<and> e = scans s' ! nat idx"
  proof (cases "sorted_flag s")
  case True
  with res have "s' = s" and "0 \<le> idx" and "nat idx < length (scans s)" and "e = scans s ! nat idx"
    by (auto simp: scan_collection_get_def split: if_splits)
  with True inv show ?thesis by (simp add: sc_inv_def)
next
  case False
  from srt have p: "mset (sort_fn (scans s)) = mset (scans s)"
    and q: "sorted_wrt (\<lambda>a b. snd a \<ge> snd b) (sort_fn (scans s))"
    by (simp_all add: sort_post_greater)
  from False res have "s' = s\<lparr>scans := sort_fn (scans s), sorted_flag := True\<rparr>"
    and "0 \<le> idx" and "nat idx < length (sort_fn (scans s))" and "e = sort_fn (scans s) ! nat idx"
    by (auto simp: scan_collection_get_def Let_def split: if_splits)
  with False p q show ?thesis by (simp add: sc_inv_def)
qed
  from all show "sc_inv s'" by blast
  from all show "sorted_flag s'" by blast
  from all show "mset (scans s') = mset (scans s)" by blast
  from all show "sorted_wrt (\<lambda>a b. snd a \<ge> snd b) (scans s')" by blast
  from all show "scans s' = (if sorted_flag s then scans s else sort_fn (scans s))" by blast
  from all show "0 \<le> idx" by blast
  from all show "nat idx < length (scans s')" by blast
  from all show "e = scans s' ! nat idx" by blast
qed

lemma get_in_bounds:
  assumes srt: "\<forall>xs. std_sort_post greater_scan xs (sort_fn xs)"
    and k: "k < length (scans s)"
  shows "\<exists>e s'. scan_collection_get sort_fn (int k) s = Inr (e, s')"
proof -
  from srt have "mset (sort_fn (scans s)) = mset (scans s)" by (simp add: sort_post_greater)
  then have "length (sort_fn (scans s)) = length (scans s)" by (rule mset_eq_length)
  with k show ?thesis by (simp add: scan_collection_get_def Let_def)
qed

lemma get_out_of_bounds:
  assumes srt: "\<forall>xs. std_sort_post greater_scan xs (sort_fn xs)"
    and k: "idx < 0 \<or> int (length (scans s)) \<le> idx"
  shows "scan_collection_get sort_fn idx s = Inl Out_of_bounds"
proof -
  from srt have "mset (sort_fn (scans s)) = mset (scans s)" by (simp add: sort_post_greater)
  then have "length (sort_fn (scans s)) = length (scans s)" by (rule mset_eq_length)
  with k show ?thesis by (auto simp: scan_collection_get_def Let_def)
qed

lemma run_ops_inv:
  assumes srt: "\<forall>xs. std_sort_post greater_scan xs (sort_fn xs)"
  shows "run_ops sort_fn ops s = Some s' \<Longrightarrow> sc_inv s \<Longrightarrow>
         sc_inv s' \<and> mset (scans s') = mset (scans s) + mset (added ops)"
proof (induction ops arbitrary: s)
  case Nil
  then show ?case by simp
next
  case (Cons op ops)
  show ?case
  proof (cases op)
    case (Add i scan)
    with Cons.prems have "run_ops sort_fn ops (scan_collection_add i scan s) = Some s'" by simp
    from Cons.IH [OF this sc_inv_add] Add show ?thesis by (simp add: mset_add)
  next
    case (Get k)
    with Cons.prems obtain e s1 where g: "scan_collection_get sort_fn k s = Inr (e, s1)"
      and r: "run_ops sort_fn ops s1 = Some s'"
      by (auto split: sum.splits)
    note gr = get_result [OF srt Cons.prems(2) g]
    from Cons.IH [OF r gr(1)] gr(3) Get show ?thesis by simp
  qed
qed

lemma descending_scores:
  assumes "mset ys = mset xs" and "sorted_wrt (\<lambda>a b. snd a \<ge> snd b) ys"
  shows "map snd ys = rev (sort (map snd xs))"
proof -
  have "sorted (rev (map snd ys))"
    using assms(2) by (simp add: sorted_wrt_rev sorted_wrt_map)
  moreover have "mset (rev (map snd ys)) = mset (map snd xs)"
    using assms(1) by simp
  ultimately have "sort (map snd xs) = rev (map snd ys)"
    by (intro properties_for_sort) simp_all
  then show ?thesis by simp
qed

lemma insertion_sort_greater_scan:
  "std_sort_post greater_scan xs (insertion_sort greater_scan xs)"
  by (rule insertion_sort_post) (auto simp: greater_scan_def)

text \<open>
  C3. After any sequence of calls starting from the empty collection, and for every
  \<open>k\<close> below the number of entries added, \<open>get k\<close> succeeds and returns the element at
  position \<open>k\<close> of the collection sorted by descending score: the stored vector is then a
  permutation of the added entries with scores in descending order, and the score returned
  is the \<open>k\<close>-th of the added scores in descending order. \<open>get\<close> sorts exactly when the
  flag is clear and sets it; a second \<open>get\<close> returns the same without sorting; \<open>add\<close>
  clears the flag.
\<close>

theorem scan_collection_get_spec:
  assumes srt: "\<forall>xs. std_sort_post greater_scan xs (sort_fn xs)"
    and run: "run_ops sort_fn ops scan_collection_init = Some s"
    and k: "k < length (added ops)"
  shows "\<exists>e s'. scan_collection_get sort_fn (int k) s = Inr (e, s') \<and>
           mset (scans s') = mset (added ops) \<and>
           sorted_wrt (\<lambda>a b. snd a \<ge> snd b) (scans s') \<and>
           e = scans s' ! k \<and>
           snd e = rev (sort (map snd (added ops))) ! k \<and>
           sorted_flag s' \<and>
           scans s' = (if sorted_flag s then scans s else sort_fn (scans s)) \<and>
           scan_collection_get sort_fn (int k) s' = Inr (e, s') \<and>
           \<not> sorted_flag (scan_collection_add i scan s')"
proof -
  from run_ops_inv [OF srt run sc_inv_init]
  have inv: "sc_inv s" and ms: "mset (scans s) = mset (added ops)"
    by (simp_all add: scan_collection_init_def)
  from ms have "length (scans s) = length (added ops)" by (rule mset_eq_length)
  with k have k': "k < length (scans s)" by simp
  from get_in_bounds [OF srt k'] obtain e s' where
    g: "scan_collection_get sort_fn (int k) s = Inr (e, s')" by blast
  note gr = get_result [OF srt inv g]
  note fl = gr(2) and ms' = gr(3) and so = gr(4) and lazy = gr(5)
  from gr(7) have kl: "k < length (scans s')" by simp
  from gr(8) have e: "e = scans s' ! k" by simp
  from ms' ms have "mset (scans s') = mset (added ops)" by simp
  from descending_scores [OF this so]
  have "map snd (scans s') = rev (sort (map snd (added ops)))" .
  with kl e have sc: "snd e = rev (sort (map snd (added ops))) ! k"
    by (metis nth_map)
  from fl kl e have again: "scan_collection_get sort_fn (int k) s' = Inr (e, s')"
    by (simp add: scan_collection_get_def)
  have "\<not> sorted_flag (scan_collection_add i scan s')"
    by (simp add: scan_collection_add_def)
  with g ms ms' so e sc fl lazy again show ?thesis by (intro exI [of _ e] exI [of _ s']) simp
qed

theorem scan_collection_get_spec_witness:
  "(\<forall>xs. std_sort_post greater_scan xs (insertion_sort greater_scan xs)) \<and>
   run_ops (insertion_sort greater_scan) [Add 0 5, Add 1 9, Get 0, Add 2 7] scan_collection_init
     = Some \<lparr>sorted_flag = False, scans = [(1, 9), (0, 5), (2, 7)]\<rparr> \<and>
   (1::nat) < length (added [Add 0 5, Add 1 9, Get 0, Add 2 7]) \<and>
   scan_collection_get (insertion_sort greater_scan) (int 1)
       \<lparr>sorted_flag = False, scans = [(1, 9), (0, 5), (2, 7)]\<rparr>
     = Inr ((2, 7), \<lparr>sorted_flag = True, scans = [(1, 9), (2, 7), (0, 5)]\<rparr>) \<and>
   (\<exists>e s'. scan_collection_get (insertion_sort greater_scan) (int 1)
              \<lparr>sorted_flag = False, scans = [(1, 9), (0, 5), (2, 7)]\<rparr> = Inr (e, s') \<and>
            snd e = rev (sort (map snd (added [Add 0 5, Add 1 9, Get 0, Add 2 7]))) ! 1)"
proof -
  have srt: "\<forall>xs. std_sort_post greater_scan xs (insertion_sort greater_scan xs)"
    using insertion_sort_greater_scan by blast
  have run: "run_ops (insertion_sort greater_scan) [Add 0 5, Add 1 9, Get 0, Add 2 7]
       scan_collection_init = Some \<lparr>sorted_flag = False, scans = [(1, 9), (0, 5), (2, 7)]\<rparr>"
    by (simp add: scan_collection_init_def scan_collection_add_def scan_collection_get_def
        insertion_sort_def greater_scan_def)
  have k: "(1::nat) < length (added [Add 0 5, Add 1 9, Get 0, Add 2 7])" by simp
  have ev: "scan_collection_get (insertion_sort greater_scan) (int 1)
       \<lparr>sorted_flag = False, scans = [(1, 9), (0, 5), (2, 7)]\<rparr>
     = Inr ((2, 7), \<lparr>sorted_flag = True, scans = [(1, 9), (2, 7), (0, 5)]\<rparr>)"
    by (simp add: scan_collection_get_def insertion_sort_def greater_scan_def)
  from scan_collection_get_spec [OF srt run k]
  have "\<exists>e s'. scan_collection_get (insertion_sort greater_scan) (int 1)
              \<lparr>sorted_flag = False, scans = [(1, 9), (0, 5), (2, 7)]\<rparr> = Inr (e, s') \<and>
            snd e = rev (sort (map snd (added [Add 0 5, Add 1 9, Get 0, Add 2 7]))) ! 1"
    by blast
  with srt run k ev show ?thesis by blast
qed


section \<open>The driver of the top-K scan (\<open>main\<close>, topK\_scan\_graph.cpp)\<close>

text \<open>
  \<open>to_int\<close> is the conversion of the \<open>size_t\<close> argument \<open>topK - 1\<close> to the \<open>int\<close>
  parameter of \<open>get\<close>. The two globals \<open>max_scan\<close> and \<open>known_scans\<close> form the record
  \<open>globals\<close>. One run of the engine (\<open>graph->start(filter); graph->wait4complete()\<close>) is
  the parameter \<open>pass\<close>: a function of the filter and the globals that returns the globals
  after the run. Both loops of \<open>main\<close> may run forever, so they return an option.
  \<open>topK\<close> is a parameter; \<open>main\<close> sets it to 1.
\<close>

definition to_int :: "size_t \<Rightarrow> int" where
  "to_int n = sint (ucast n :: 32 word)"

record topK_scan_vertex = compute_vertex +
  has_local_scan :: bool
  est_local :: "size_t option"

record globals =
  max_scan :: global_max
  known_scans :: scan_collection

type_synonym engine_pass = "(topK_scan_vertex \<Rightarrow> bool) \<Rightarrow> globals \<Rightarrow> globals"

definition remove_small_filter_keep :: "size_t \<Rightarrow> topK_scan_vertex \<Rightarrow> bool" where
  "remove_small_filter_keep min_edges v = (num_edges v \<ge> min_edges)"

definition remove_small_scan_filter_keep :: "size_t \<Rightarrow> topK_scan_vertex \<Rightarrow> bool" where
  "remove_small_scan_filter_keep min_scan v =
     (let num_local_edges = num_edges v in num_local_edges * num_local_edges \<ge> min_scan)"

partial_function (option) discovery_loop ::
  "engine_pass \<Rightarrow> size_t \<Rightarrow> (topK_scan_vertex \<Rightarrow> bool) \<Rightarrow> globals \<Rightarrow> globals option" where
  "discovery_loop pass topK keep gl =
     (if get_size (known_scans gl) < topK
      then discovery_loop pass topK keep ((pass keep gl)\<lparr>max_scan := global_max_init 0\<rparr>)
      else Some gl)"

definition kth_scan ::
  "(vertex_scan list \<Rightarrow> vertex_scan list) \<Rightarrow> size_t \<Rightarrow> globals \<Rightarrow> fault + (size_t \<times> globals)" where
  "kth_scan sort_fn topK gl =
     (case scan_collection_get sort_fn (to_int (topK - 1)) (known_scans gl) of
        Inl f \<Rightarrow> Inl f
      | Inr (scan, ks) \<Rightarrow> Inr (snd scan, gl\<lparr>known_scans := ks\<rparr>))"

definition refine_pass ::
  "(vertex_scan list \<Rightarrow> vertex_scan list) \<Rightarrow> engine_pass \<Rightarrow> size_t \<Rightarrow> globals \<Rightarrow>
     fault + (size_t \<times> size_t \<times> globals)" where
  "refine_pass sort_fn pass topK gl =
     (case kth_scan sort_fn topK gl of
        Inl f \<Rightarrow> Inl f
      | Inr (prev_topK_scan, gl1) \<Rightarrow>
          (let gl2 = gl1\<lparr>max_scan := global_max_init prev_topK_scan\<rparr>;
               gl3 = pass (remove_small_scan_filter_keep prev_topK_scan) gl2
           in case kth_scan sort_fn topK gl3 of
                Inl f \<Rightarrow> Inl f
              | Inr (cur_topK_scan, gl4) \<Rightarrow> Inr (prev_topK_scan, cur_topK_scan, gl4)))"

partial_function (option) refine_loop ::
  "(vertex_scan list \<Rightarrow> vertex_scan list) \<Rightarrow> engine_pass \<Rightarrow> size_t \<Rightarrow> globals \<Rightarrow>
     (fault + globals) option" where
  "refine_loop sort_fn pass topK gl =
     (case refine_pass sort_fn pass topK gl of
        Inl f \<Rightarrow> Some (Inl f)
      | Inr (prev_topK_scan, cur_topK_scan, gl') \<Rightarrow>
          if prev_topK_scan \<noteq> cur_topK_scan
          then refine_loop sort_fn pass topK gl'
          else Some (Inr gl'))"


definition add_one_pass :: engine_pass where
  "add_one_pass keep gl = gl\<lparr>known_scans := scan_collection_add 0 5 (known_scans gl)\<rparr>"

definition globals_init :: globals where
  "globals_init = \<lparr>max_scan = global_max_init 0, known_scans = scan_collection_init\<rparr>"

definition one_known :: globals where
  "one_known = \<lparr>max_scan = global_max_init 0,
                 known_scans = \<lparr>sorted_flag = False, scans = [(0, 5)]\<rparr>\<rparr>"

definition find_once_pass :: engine_pass where
  "find_once_pass keep gl =
     (if global_max_get (max_scan gl) = 5
      then gl\<lparr>known_scans := scan_collection_add 1 9 (known_scans gl)\<rparr>
      else gl)"

definition after_first_pass :: globals where
  "after_first_pass = \<lparr>max_scan = global_max_init 5,
       known_scans = \<lparr>sorted_flag = True, scans = [(1, 9), (0, 5)]\<rparr>\<rparr>"

definition after_second_pass :: globals where
  "after_second_pass = \<lparr>max_scan = global_max_init 9,
       known_scans = \<lparr>sorted_flag = True, scans = [(1, 9), (0, 5)]\<rparr>\<rparr>"


subsection \<open>The index passed to \<open>get\<close>\<close>

lemma to_int_small:
  assumes "unat n < 2 ^ 31"
  shows "to_int n = int (unat n)"
proof -
  let ?w = "ucast n :: 32 word"
  have "unat ?w = take_bit 32 (unat n)" by (simp add: unsigned_ucast_eq)
  also have "\<dots> = unat n" using assms by (simp add: take_bit_nat_eq_self)
  finally have u: "unat ?w = unat n" .
  have "sint ?w = signed_take_bit 31 (uint ?w)" by (simp add: sint_uint)
  also have "\<dots> = uint ?w"
  proof (rule signed_take_bit_int_eq_self)
    show "- (2 ^ 31) \<le> uint ?w" by (rule order_trans [of _ 0]) simp_all
    have "uint ?w = int (unat n)" using u by (simp only: uint_nat)
    also have "\<dots> < int (2 ^ 31)" using assms by (simp only: of_nat_less_iff)
    finally show "uint ?w < 2 ^ 31" by simp
  qed
  also have "\<dots> = int (unat n)" using u by (simp only: uint_nat)
  finally show ?thesis by (simp add: to_int_def)
qed

lemma to_int_pred:
  assumes "0 < topK" and "topK \<le> 2 ^ 31"
  shows "to_int (topK - 1) = int (unat topK - 1)"
proof -
  from assms(1) have nz: "topK \<noteq> 0" by simp
  then have u: "unat (topK - 1) = unat topK - 1" by (rule unat_minus_one)
  from nz have pos: "0 < unat topK" by (simp add: unat_gt_0)
  from assms(2) have "unat topK \<le> 2 ^ 31" by (simp add: word_le_nat_alt)
  with pos u have "unat (topK - 1) < 2 ^ 31" by simp
  from to_int_small [OF this] u show ?thesis by simp
qed

lemma unat_get_size_le: "unat (of_nat n :: size_t) \<le> n"
  by (simp add: unat_of_nat)

lemma discovery_loop_exit:
  assumes "discovery_loop pass topK keep gl = Some gl'"
  shows "topK \<le> get_size (known_scans gl')"
proof (rule discovery_loop.raw_induct
    [where P = "\<lambda>pass topK keep gl gl'. topK \<le> get_size (known_scans gl')", OF _ assms])
  fix f :: "engine_pass \<Rightarrow> size_t \<Rightarrow> (topK_scan_vertex \<Rightarrow> bool) \<Rightarrow> globals \<Rightarrow> globals option"
  fix pass topK keep gl gl'
  assume IH: "\<And>pass topK keep gl gl'. f pass topK keep gl = Some gl' \<Longrightarrow>
                topK \<le> get_size (known_scans gl')"
    and step: "(if get_size (known_scans gl) < topK
                then f pass topK keep ((pass keep gl)\<lparr>max_scan := global_max_init 0\<rparr>)
                else Some gl) = Some gl'"
  show "topK \<le> get_size (known_scans gl')"
  proof (cases "get_size (known_scans gl) < topK")
    case True
    with step have "f pass topK keep ((pass keep gl)\<lparr>max_scan := global_max_init 0\<rparr>) = Some gl'"
      by simp
    then show ?thesis by (rule IH)
  next
    case False
    with step show ?thesis by simp
  qed
qed

lemma kth_in_bounds:
  assumes srt: "\<forall>xs. std_sort_post greater_scan xs (sort_fn xs)"
    and pos: "0 < topK" and small: "topK \<le> 2 ^ 31"
    and size: "topK \<le> get_size s"
  shows "\<exists>e s'. scan_collection_get sort_fn (to_int (topK - 1)) s = Inr (e, s')"
proof -
  from size have "unat topK \<le> unat (of_nat (length (scans s)) :: size_t)"
    by (simp add: get_size_def word_le_nat_alt)
  also have "\<dots> \<le> length (scans s)" by (rule unat_get_size_le)
  finally have le: "unat topK \<le> length (scans s)" .
  from pos have "0 < unat topK" by (simp add: unat_gt_0)
  with le have k: "unat topK - 1 < length (scans s)" by simp
  from get_in_bounds [OF srt k] to_int_pred [OF pos small] show ?thesis by simp
qed

text \<open>
  C9. \<open>get\<close> has no soft failure: an index outside the vector is a fault. When the first
  loop of \<open>main\<close> ends, at least \<open>topK\<close> scans are known, so for \<open>topK\<close> between 1 and
  \<open>2 ^ 31\<close> the call \<open>get(topK - 1)\<close> that follows is in bounds.
\<close>

theorem get_precondition:
  assumes srt: "\<forall>xs. std_sort_post greater_scan xs (sort_fn xs)"
    and loop: "discovery_loop pass topK keep gl = Some gl'"
    and pos: "0 < topK" and small: "topK \<le> 2 ^ 31"
  shows "topK \<le> get_size (known_scans gl') \<and>
         (\<exists>e s'. scan_collection_get sort_fn (to_int (topK - 1)) (known_scans gl') = Inr (e, s')) \<and>
         (\<forall>idx s. idx < 0 \<or> int (length (scans s)) \<le> idx \<longrightarrow>
            scan_collection_get sort_fn idx s = Inl Out_of_bounds)"
proof -
  from loop have size: "topK \<le> get_size (known_scans gl')" by (rule discovery_loop_exit)
  moreover from kth_in_bounds [OF srt pos small size]
  have "\<exists>e s'. scan_collection_get sort_fn (to_int (topK - 1)) (known_scans gl') = Inr (e, s')" .
  moreover have "\<forall>idx s. idx < 0 \<or> int (length (scans s)) \<le> idx \<longrightarrow>
            scan_collection_get sort_fn idx s = Inl Out_of_bounds"
    using get_out_of_bounds [OF srt] by blast
  ultimately show ?thesis by blast
qed

theorem get_precondition_witness:
  "(\<forall>xs. std_sort_post greater_scan xs (insertion_sort greater_scan xs)) \<and>
   discovery_loop add_one_pass 1 (remove_small_filter_keep 1000) globals_init
     = Some \<lparr>max_scan = global_max_init 0,
              known_scans = \<lparr>sorted_flag = False, scans = [(0, 5)]\<rparr>\<rparr> \<and>
   (0 :: size_t) < 1 \<and> (1 :: size_t) \<le> 2 ^ 31 \<and>
   (\<exists>e s'. scan_collection_get (insertion_sort greater_scan) (to_int (1 - 1))
              \<lparr>sorted_flag = False, scans = [(0, 5)]\<rparr> = Inr (e, s')) \<and>
   scan_collection_get (insertion_sort greater_scan) 1
      \<lparr>sorted_flag = False, scans = [(0, 5)]\<rparr> = Inl Out_of_bounds"
proof -
  have srt: "\<forall>xs. std_sort_post greater_scan xs (insertion_sort greater_scan xs)"
    using insertion_sort_greater_scan by blast
  have loop: "discovery_loop add_one_pass 1 (remove_small_filter_keep 1000) globals_init
     = Some \<lparr>max_scan = global_max_init 0,
              known_scans = \<lparr>sorted_flag = False, scans = [(0, 5)]\<rparr>\<rparr>"
    by (subst discovery_loop.simps, subst discovery_loop.simps)
       (simp add: add_one_pass_def globals_init_def get_size_def scan_collection_add_def
          scan_collection_init_def)
  have pos: "(0 :: size_t) < 1" and small: "(1 :: size_t) \<le> 2 ^ 31" by simp_all
  from get_precondition [OF srt loop pos small]
  have "(\<exists>e s'. scan_collection_get (insertion_sort greater_scan) (to_int (1 - 1))
              \<lparr>sorted_flag = False, scans = [(0, 5)]\<rparr> = Inr (e, s'))"
    and "scan_collection_get (insertion_sort greater_scan) 1
      \<lparr>sorted_flag = False, scans = [(0, 5)]\<rparr> = Inl Out_of_bounds"
    by simp_all
  with srt loop pos small show ?thesis by blast
qed


lemma refine_loop_exit:
  assumes "refine_loop sort_fn pass topK gl = Some r"
  shows "\<forall>gl_final. r = Inr gl_final \<longrightarrow>
           (\<exists>gl0 p. refine_pass sort_fn pass topK gl0 = Inr (p, p, gl_final))"
proof (rule refine_loop.raw_induct
    [where P = "\<lambda>sort_fn pass topK gl r. \<forall>gl_final. r = Inr gl_final \<longrightarrow>
           (\<exists>gl0 p. refine_pass sort_fn pass topK gl0 = Inr (p, p, gl_final))", OF _ assms])
  fix f :: "(vertex_scan list \<Rightarrow> vertex_scan list) \<Rightarrow> engine_pass \<Rightarrow> size_t \<Rightarrow> globals \<Rightarrow>
     (fault + globals) option"
  fix sort_fn pass topK gl r
  assume IH: "\<And>sort_fn pass topK gl r. f sort_fn pass topK gl = Some r \<Longrightarrow>
                \<forall>gl_final. r = Inr gl_final \<longrightarrow>
                  (\<exists>gl0 p. refine_pass sort_fn pass topK gl0 = Inr (p, p, gl_final))"
    and step: "(case refine_pass sort_fn pass topK gl of
                  Inl f \<Rightarrow> Some (Inl f)
                | Inr (prev_topK_scan, cur_topK_scan, gl') \<Rightarrow>
                    if prev_topK_scan \<noteq> cur_topK_scan
                    then f sort_fn pass topK gl'
                    else Some (Inr gl')) = Some r"
  show "\<forall>gl_final. r = Inr gl_final \<longrightarrow>
          (\<exists>gl0 p. refine_pass sort_fn pass topK gl0 = Inr (p, p, gl_final))"
  proof (intro allI impI)
    fix gl_final assume r: "r = Inr gl_final"
    with step obtain prev cur gl' where
      rp: "refine_pass sort_fn pass topK gl = Inr (prev, cur, gl')"
      by (auto split: sum.splits)
    show "\<exists>gl0 p. refine_pass sort_fn pass topK gl0 = Inr (p, p, gl_final)"
    proof (cases "prev = cur")
      case True
      with step r rp have "gl' = gl_final" by simp
      with rp True show ?thesis by blast
    next
      case False
      with step rp have "f sort_fn pass topK gl' = Some r" by simp
      from IH [OF this] r show ?thesis by blast
    qed
  qed
qed

lemma kth_scan_value:
  assumes srt: "\<forall>xs. std_sort_post greater_scan xs (sort_fn xs)"
    and inv: "sc_inv (known_scans gl)"
    and pos: "0 < topK" and small: "topK \<le> 2 ^ 31"
    and kth: "kth_scan sort_fn topK gl = Inr (prev, gl1)"
  shows "prev = rev (sort (map snd (scans (known_scans gl)))) ! (unat topK - 1)"
proof -
  from kth obtain scan ks where
    g: "scan_collection_get sort_fn (to_int (topK - 1)) (known_scans gl) = Inr (scan, ks)"
    and prev: "prev = snd scan"
    by (auto simp: kth_scan_def split: sum.splits)
  note gr = get_result [OF srt inv g]
  from gr(7,8) to_int_pred [OF pos small]
  have k: "unat topK - 1 < length (scans ks)" and e: "scan = scans ks ! (unat topK - 1)"
    by simp_all
  from descending_scores [OF gr(3) gr(4)]
  have "map snd (scans ks) = rev (sort (map snd (scans (known_scans gl))))" .
  with k e prev show ?thesis by (metis nth_map)
qed

text \<open>
  C8. The filter of the refinement stage keeps a vertex exactly when its squared edge count
  is at least the threshold. One pass reads the \<open>topK\<close>-th known scan, seeds the global
  maximum with it, runs the engine with that threshold and reads the \<open>topK\<close>-th known scan
  again; on a collection that satisfies its invariant the value read is the \<open>topK\<close>-th
  largest known score. The loop ends after a pass exactly when the two values are equal and
  repeats otherwise, so whenever it returns, its last pass read the same value before and
  after.
\<close>

theorem refinement_fixed_point:
  "remove_small_scan_filter_keep m v = (m \<le> num_edges v * num_edges v) \<and>
   (kth_scan sort_fn topK gl = Inr (prev, gl1) \<longrightarrow>
      refine_pass sort_fn pass topK gl =
        (case kth_scan sort_fn topK
                (pass (remove_small_scan_filter_keep prev) (gl1\<lparr>max_scan := global_max_init prev\<rparr>)) of
           Inl f \<Rightarrow> Inl f
         | Inr (cur, gl4) \<Rightarrow> Inr (prev, cur, gl4))) \<and>
   ((\<forall>xs. std_sort_post greater_scan xs (sort_fn xs)) \<and> sc_inv (known_scans gl) \<and>
      0 < topK \<and> topK \<le> 2 ^ 31 \<and> kth_scan sort_fn topK gl = Inr (prev, gl1) \<longrightarrow>
      prev = rev (sort (map snd (scans (known_scans gl)))) ! (unat topK - 1)) \<and>
   (refine_pass sort_fn pass topK gl = Inr (p, c, gl') \<longrightarrow>
      refine_loop sort_fn pass topK gl =
        (if c = p then Some (Inr gl') else refine_loop sort_fn pass topK gl')) \<and>
   (refine_loop sort_fn pass topK gl = Some (Inr gl_final) \<longrightarrow>
      (\<exists>gl0 q. refine_pass sort_fn pass topK gl0 = Inr (q, q, gl_final)))"
proof (intro conjI impI)
  show "remove_small_scan_filter_keep m v = (m \<le> num_edges v * num_edges v)"
    by (simp add: remove_small_scan_filter_keep_def Let_def)
next
  assume "kth_scan sort_fn topK gl = Inr (prev, gl1)"
  then show "refine_pass sort_fn pass topK gl =
        (case kth_scan sort_fn topK
                (pass (remove_small_scan_filter_keep prev) (gl1\<lparr>max_scan := global_max_init prev\<rparr>)) of
           Inl f \<Rightarrow> Inl f
         | Inr (cur, gl4) \<Rightarrow> Inr (prev, cur, gl4))"
    by (simp add: refine_pass_def)
next
  assume "(\<forall>xs. std_sort_post greater_scan xs (sort_fn xs)) \<and> sc_inv (known_scans gl) \<and>
      0 < topK \<and> topK \<le> 2 ^ 31 \<and> kth_scan sort_fn topK gl = Inr (prev, gl1)"
  then show "prev = rev (sort (map snd (scans (known_scans gl)))) ! (unat topK - 1)"
    using kth_scan_value [of sort_fn gl topK prev gl1] by blast
next
  assume "refine_pass sort_fn pass topK gl = Inr (p, c, gl')"
  then show "refine_loop sort_fn pass topK gl =
        (if c = p then Some (Inr gl') else refine_loop sort_fn pass topK gl')"
    by (subst refine_loop.simps) auto
next
  assume "refine_loop sort_fn pass topK gl = Some (Inr gl_final)"
  then show "\<exists>gl0 q. refine_pass sort_fn pass topK gl0 = Inr (q, q, gl_final)"
    using refine_loop_exit [of sort_fn pass topK gl "Inr gl_final"] by blast
qed

theorem refinement_fixed_point_witness:
  "(\<forall>xs. std_sort_post greater_scan xs (insertion_sort greater_scan xs)) \<and>
   sc_inv (known_scans one_known) \<and> (0 :: size_t) < 1 \<and> (1 :: size_t) \<le> 2 ^ 31 \<and>
   kth_scan (insertion_sort greater_scan) 1 one_known =
     Inr (5, one_known\<lparr>known_scans := \<lparr>sorted_flag = True, scans = [(0, 5)]\<rparr>\<rparr>) \<and>
   refine_pass (insertion_sort greater_scan) find_once_pass 1 one_known = Inr (5, 9, after_first_pass) \<and>
   refine_loop (insertion_sort greater_scan) find_once_pass 1 one_known = Some (Inr after_second_pass) \<and>
   refine_loop (insertion_sort greater_scan) find_once_pass 1 one_known =
     refine_loop (insertion_sort greater_scan) find_once_pass 1 after_first_pass \<and>
   (5 :: size_t) = rev (sort (map snd (scans (known_scans one_known)))) ! (unat (1 :: size_t) - 1) \<and>
   (\<exists>gl0 q. refine_pass (insertion_sort greater_scan) find_once_pass 1 gl0
              = Inr (q, q, after_second_pass))"
proof -
  let ?srt = "insertion_sort greater_scan"
  let ?g1 = "one_known\<lparr>known_scans := \<lparr>sorted_flag = True, scans = [(0, 5)]\<rparr>\<rparr>"
  have srt: "\<forall>xs. std_sort_post greater_scan xs (?srt xs)"
    using insertion_sort_greater_scan by blast
  have inv: "sc_inv (known_scans one_known)" by (simp add: sc_inv_def one_known_def)
  have pos: "(0 :: size_t) < 1" and small: "(1 :: size_t) \<le> 2 ^ 31" by simp_all
  have kth: "kth_scan ?srt 1 one_known = Inr (5, ?g1)"
    by (simp add: kth_scan_def scan_collection_get_def one_known_def to_int_def
        insertion_sort_def greater_scan_def)
  have p1: "refine_pass ?srt find_once_pass 1 one_known = Inr (5, 9, after_first_pass)"
    by (simp add: refine_pass_def kth_scan_def scan_collection_get_def one_known_def to_int_def
        insertion_sort_def greater_scan_def find_once_pass_def after_first_pass_def
        global_max_get_def global_max_init_def scan_collection_add_def)
  have p2: "refine_pass ?srt find_once_pass 1 after_first_pass = Inr (9, 9, after_second_pass)"
    by (simp add: refine_pass_def kth_scan_def scan_collection_get_def to_int_def
        find_once_pass_def after_first_pass_def after_second_pass_def
        global_max_get_def global_max_init_def)
  note fp = refinement_fixed_point [where sort_fn = ?srt and pass = find_once_pass and topK = 1]
  from fp [where gl = after_first_pass and p = 9 and c = 9 and gl' = after_second_pass] p2
  have l2: "refine_loop ?srt find_once_pass 1 after_first_pass = Some (Inr after_second_pass)"
    by simp
  from fp [where gl = one_known and p = 5 and c = 9 and gl' = after_first_pass] p1
  have l1: "refine_loop ?srt find_once_pass 1 one_known =
     refine_loop ?srt find_once_pass 1 after_first_pass"
    by simp
  from fp [where gl = one_known and prev = 5 and ?gl1.0 = ?g1] srt inv pos small kth
  have val: "(5 :: size_t) = rev (sort (map snd (scans (known_scans one_known)))) ! (unat (1 :: size_t) - 1)"
    by blast
  from fp [where gl = one_known and gl_final = after_second_pass] l1 l2
  have ex: "\<exists>gl0 q. refine_pass ?srt find_once_pass 1 gl0 = Inr (q, q, after_second_pass)"
    by simp
  from srt inv pos small kth p1 l1 l2 val ex show ?thesis by simp
qed

section \<open>The vertex program of the top-K scan (\<open>topK_scan_vertex\<close>)\<close>

text \<open>
  \<open>has_local_scan\<close> and \<open>local_value\<close> belong to the base class \<open>scan_vertex\<close> of
  scan\_graph.h: the former is a field of the record, the latter is the option
  \<open>est_local\<close>, \<open>None\<close> when \<open>has_est_local()\<close> is false. \<open>topK_run\<close> is \<open>run(graph)\<close> and returns the requests it
  issues. \<open>get_est_local_scan\<close> merges the neighbour lists as \<open>get_unique_neighbors\<close>
  does (the writes stay inside the buffer by \<open>unique_merge_loop_bound\<close>) and adds the
  capped edge counts of the neighbours in \<open>size_t\<close> arithmetic. \<open>topK_run_on_itself\<close>
  returns the vertex and what happened: the assertion failed, it returned early, or it went
  on to \<open>scan_vertex::run_on_itself\<close>.
\<close>

datatype outcome = Assertion_failed | Returned | Scan_vertex_run_on_itself

definition topK_run :: "global_max \<Rightarrow> topK_scan_vertex \<Rightarrow> request list" where
  "topK_run ms v =
     (if has_local_scan v then []
      else
        (let req_itself =
               (case est_local v of
                  Some est \<Rightarrow> est > global_max_get ms
                | None \<Rightarrow>
                    (let num_local_edges = num_edges v
                     in num_local_edges * num_local_edges \<ge> global_max_get ms))
         in if req_itself then [Request_vertices (cv_id v)] else []))"

definition get_est_local_scan ::
  "(vertex_id_t \<Rightarrow> topK_scan_vertex) \<Rightarrow> page_vertex \<Rightarrow> topK_scan_vertex \<Rightarrow>
     topK_scan_vertex \<times> size_t" where
  "get_est_local_scan graph vertex v =
     (case est_local v of
        Some est \<Rightarrow> (v, est)
      | None \<Rightarrow>
          (let (num_neighbors, all_neighbors) =
                 unique_merge (get_neigh_seq vertex IN_EDGE) (get_neigh_seq vertex OUT_EDGE)
                   (skip_self (pv_id vertex)) merge_edge;
               tot_edges =
                 foldl (\<lambda>tot n. tot + min (num_edges (graph n)) (of_nat num_neighbors * 2))
                   (num_edges v) all_neighbors;
               tot_edges = tot_edges div 2
           in (v\<lparr>est_local := Some tot_edges\<rparr>, tot_edges)))"

definition topK_run_on_itself ::
  "(vertex_id_t \<Rightarrow> topK_scan_vertex) \<Rightarrow> global_max \<Rightarrow> page_vertex \<Rightarrow> topK_scan_vertex \<Rightarrow>
     topK_scan_vertex \<times> outcome" where
  "topK_run_on_itself graph ms vertex v =
     (let num_local_edges = (of_nat (get_num_edges vertex BOTH_EDGES) :: size_t) in
      if num_local_edges \<noteq> num_edges v then (v, Assertion_failed)
      else if num_local_edges = 0 then (v, Returned)
      else
        (let (v', est) = get_est_local_scan graph vertex v
         in if est < global_max_get ms then (v', Returned)
            else (v', Scan_vertex_run_on_itself)))"

definition degree2_vertex :: topK_scan_vertex where
  "degree2_vertex = \<lparr>cv_id = 0, num_edges = 2, has_local_scan = False, est_local = None\<rparr>"

definition star_graph :: "vertex_id_t \<Rightarrow> topK_scan_vertex" where
  "star_graph i = \<lparr>cv_id = i, num_edges = (if i = 0 then 3 else 1),
                   has_local_scan = False, est_local = None\<rparr>"

definition known_vertex :: topK_scan_vertex where
  "known_vertex = \<lparr>cv_id = 3, num_edges = 4, has_local_scan = True, est_local = Some 7\<rparr>"


text \<open>
  C1 as stated fails: a vertex with two edges and no estimate requests its edges while
  the global maximum is 4, although its squared degree does not exceed 4.
\<close>

theorem topK_run_counterexample:
  "topK_run (global_max_init 4) degree2_vertex = [Request_vertices 0] \<and>
   est_local degree2_vertex = None \<and>
   \<not> (num_edges degree2_vertex * num_edges degree2_vertex > global_max_get (global_max_init 4))"
  by (simp add: topK_run_def degree2_vertex_def global_max_init_def global_max_get_def)

text \<open>
  C1 as amended. \<open>run\<close> requests the vertex's own edges exactly when its local scan is
  not known and either an estimate exists and is strictly greater than the global maximum,
  or no estimate exists and the squared edge count (in \<open>size_t\<close> arithmetic) is at least
  the global maximum. A vertex whose local scan is known issues no request.
  \<open>run_on_itself\<close> goes on to compute exactly when the edge count of the page matches, is
  not zero and the estimate is not below the global maximum; in particular it returns
  without computing when the estimate is below it. An existing estimate is returned as it is.
\<close>

theorem topK_run_spec:
  "topK_run ms v =
     (if \<not> has_local_scan v \<and>
         (case est_local v of
            Some est \<Rightarrow> global_max_get ms < est
          | None \<Rightarrow> global_max_get ms \<le> num_edges v * num_edges v)
      then [Request_vertices (cv_id v)] else []) \<and>
   (has_local_scan v \<longrightarrow> topK_run ms v = []) \<and>
   (snd (topK_run_on_itself graph ms vertex v) = Scan_vertex_run_on_itself) =
     (of_nat (get_num_edges vertex BOTH_EDGES) = num_edges v \<and> num_edges v \<noteq> 0 \<and>
      \<not> snd (get_est_local_scan graph vertex v) < global_max_get ms) \<and>
   (snd (get_est_local_scan graph vertex v) < global_max_get ms \<longrightarrow>
      snd (topK_run_on_itself graph ms vertex v) \<noteq> Scan_vertex_run_on_itself) \<and>
   (est_local v = Some e \<longrightarrow> get_est_local_scan graph vertex v = (v, e))"
  by (auto simp: topK_run_def topK_run_on_itself_def Let_def split_beta get_est_local_scan_def
      split: option.splits)

theorem topK_run_spec_witness:
  "has_local_scan known_vertex \<and>
   est_local known_vertex = Some 7 \<and>
   snd (get_est_local_scan star_graph \<lparr>pv_id = 3, in_edges = [1, 2], out_edges = [4, 5]\<rparr> known_vertex)
     < global_max_get (global_max_init 9) \<and>
   topK_run (global_max_init 9) known_vertex = [] \<and>
   snd (topK_run_on_itself star_graph (global_max_init 9)
          \<lparr>pv_id = 3, in_edges = [1, 2], out_edges = [4, 5]\<rparr> known_vertex)
     \<noteq> Scan_vertex_run_on_itself \<and>
   get_est_local_scan star_graph \<lparr>pv_id = 3, in_edges = [1, 2], out_edges = [4, 5]\<rparr> known_vertex
     = (known_vertex, 7)"
proof -
  have h1: "has_local_scan known_vertex" and h2: "est_local known_vertex = Some 7"
    by (simp_all add: known_vertex_def)
  have h3: "snd (get_est_local_scan star_graph
                  \<lparr>pv_id = 3, in_edges = [1, 2], out_edges = [4, 5]\<rparr> known_vertex)
     < global_max_get (global_max_init 9)"
    by (simp add: get_est_local_scan_def known_vertex_def global_max_get_def global_max_init_def)
  from topK_run_spec [of "global_max_init 9" known_vertex star_graph
      "\<lparr>pv_id = 3, in_edges = [1, 2], out_edges = [4, 5]\<rparr>" 7] h1 h2 h3
  show ?thesis by blast
qed


end
